theory Spec2Isabelle
  imports Complex_Main "HOL-Library.Word" "HOL-Library.Char_ord" "HOL-Library.List_Lexorder"
begin

section \<open>Schemas, Fields and Configs (benchproc)\<close>

text \<open>
  A Go panic is a value of type \<open>panic\<close>; a function that can panic returns
  \<open>panic + 'a\<close> with \<open>Inl\<close> for the panic.
\<close>

datatype panic = Panic string

text \<open>
  The comparison function of a field (\<open>fieldInternal.cmp\<close>) is one of the closures
  that \<open>makeProjection\<close> and \<open>AddValues\<close> install: the fixed order (which captures
  the list of words), the observation order (which reads the field's own \<open>order\<close> map
  when it is called), or one of the two \<open>builtinOrders\<close>. \<open>CmpNil\<close> is the nil
  function value of a field that \<open>addField\<close> has just created.
\<close>

datatype cmpKind = CmpNil | CmpFixed "string list" | CmpFirst | CmpAlpha | CmpNum

text \<open>
  \<open>Field\<close> is the Go pair of a name and a pointer to a \<open>fieldInternal\<close>; the
  tree of fields is a tree of such nodes. \<open>fschema\<close> is the pointer to the owning
  Schema (\<open>None\<close> is nil, as for the root), \<open>idx\<close> is \<open>-1\<close> for a group,
  \<open>forder\<close> is the observation-order map (\<open>None\<close> is the nil map) kept as an
  association list whose length is the \<open>len\<close> of the Go map.
\<close>

datatype Field = Field (Name: string) (fschema: "nat option") (idx: int)
  (sub: "Field list") (fcmp: cmpKind) (forder: "(string \<times> nat) list option")

text \<open>
  A \<open>configNode\<close> is heap allocated and compared by pointer: \<open>ref\<close> is that
  pointer. Its \<open>vals\<close> never change after allocation, so the node carries them. A
  \<open>Config\<close> wraps a possibly nil pointer to a node.
\<close>

record configNode =
  ref :: nat
  nschema :: "nat option"
  vals :: "string list"

type_synonym Config = "configNode option"

text \<open>
  A projection function of a Schema (an element of \<open>Schema.project\<close>) is one of the
  three closures of \<open>makeProjection\<close>. The group closure captures the group node
  (its position under the root), the order to give to new fields, and its map
  \<open>seen\<close> from file keys to the fields made for them; the other two capture the
  field they fill and, for a specific key, its extractor.
\<close>

datatype extractor = ExtractName | ExtractFull | ExtractNamePart string bool
  | ExtractFileKey string | ExtractFullExcluded "string list" bool bool

datatype projFn = ProjConfig "nat list" cmpKind "(string \<times> Field) list"
  | ProjFullname Field
  | ProjKey extractor Field

record Schema =
  sid :: nat
  sroot :: Field
  nFields :: nat
  flatCache :: "Field list option"
  project :: "projFn list"
  row :: "string list"
  configs :: "64 word \<Rightarrow> configNode list"
  nextRef :: nat

definition newSchema :: "nat \<Rightarrow> Schema" where
  "newSchema p = \<lparr>sid = p, sroot = Field [] None (-1) [] CmpNil None, nFields = 0,
     flatCache = None, project = [], row = [],
     configs = (\<lambda>h. []), nextRef = 0\<rparr>"

subsection \<open>The tree of fields\<close>

text \<open>
  A group handed to \<open>addField\<close> or \<open>addGroup\<close> is named by its path from the
  root (the positions in the successive \<open>sub\<close> slices). \<open>appendAt\<close> is
  \<open>group.sub = append(group.sub, field)\<close> on the node at that path.
\<close>

fun nodeAt :: "Field \<Rightarrow> nat list \<Rightarrow> Field option" where
  "nodeAt f [] = Some f"
| "nodeAt f (i # p) = (if i < length (sub f) then nodeAt (sub f ! i) p else None)"

fun appendAt :: "Field \<Rightarrow> nat list \<Rightarrow> Field \<Rightarrow> Field" where
  "appendAt (Field n sc ix sb c od) [] new = Field n sc ix (sb @ [new]) c od"
| "appendAt (Field n sc ix sb c od) (i # p) new =
     Field n sc ix (map (\<lambda>(k, g). if k = i then appendAt g p new else g) (zip [0..<length sb] sb)) c od"

fun walk :: "Field \<Rightarrow> Field list" where
  "walk (Field n sc ix sb c od) =
     (if ix \<noteq> -1 then [Field n sc ix sb c od] else concat (map walk sb))"

definition Fields :: "Schema \<Rightarrow> Field list \<times> Schema" where
  "Fields s = (case flatCache s of
      Some c \<Rightarrow> (c, s)
    | None \<Rightarrow> (let c = walk (sroot s) in (c, s\<lparr>flatCache := Some c\<rparr>)))"

definition addField :: "Schema \<Rightarrow> nat list \<Rightarrow> string \<Rightarrow> panic + (Field \<times> Schema)" where
  "addField s grp name =
     (case nodeAt (sroot s) grp of
        None \<Rightarrow> Inl (Panic ''no such group'')
      | Some g \<Rightarrow>
          if idx g \<noteq> -1 then Inl (Panic ''field's parent is not a group'')
          else (let fld = Field name (Some (sid s)) (int (nFields s)) [] CmpNil None
                in Inr (fld, s\<lparr>nFields := nFields s + 1,
                                 sroot := appendAt (sroot s) grp fld,
                                 row := row s @ [''''],
                                 flatCache := None\<rparr>)))"

definition addGroup :: "Schema \<Rightarrow> nat list \<Rightarrow> string \<Rightarrow> panic + (nat list \<times> Schema)" where
  "addGroup s grp name =
     (case nodeAt (sroot s) grp of
        None \<Rightarrow> Inl (Panic ''no such group'')
      | Some g \<Rightarrow>
          (let fld = Field name (Some (sid s)) (-1) [] CmpNil None
           in Inr (grp @ [length (sub g)], s\<lparr>sroot := appendAt (sroot s) grp fld\<rparr>)))"

subsection \<open>Interning a row\<close>

text \<open>
  \<open>maphash\<close> with the process-wide random \<open>configSeed\<close> is a function from the
  bytes written to a 64-bit sum; it is the parameter \<open>hsh\<close>. \<open>internRow\<close> writes
  the values of the trimmed row one after the other, so it hashes their concatenation.
\<close>

fun trimRow :: "string list \<Rightarrow> string list" where
  "trimRow rw = (if rw \<noteq> [] \<and> last rw = [] then trimRow (butlast rw) else rw)"

declare trimRow.simps [simp del]

definition equalRow :: "configNode \<Rightarrow> string list \<Rightarrow> bool" where
  "equalRow n rw = (if length (vals n) \<noteq> length rw then False
     else list_all (\<lambda>(i, v). rw ! i = v) (zip [0..<length (vals n)] (vals n)))"

text \<open>
  The update of one field's observation order for the row being interned: the value
  of the field in the row (\<open>""\<close> past its end) gets the next number unless it has one.
\<close>

definition observe :: "string list \<Rightarrow> Field \<Rightarrow> Field" where
  "observe rw fld =
     (case forder fld of
        None \<Rightarrow> fld
      | Some om \<Rightarrow>
          (let val = (if idx fld < int (length rw) then rw ! nat (idx fld) else [])
           in if map_of om val \<noteq> None then fld
              else Field (Name fld) (fschema fld) (idx fld) (sub fld) (fcmp fld)
                     (Some (om @ [(val, length om)]))))"

text \<open>
  The fields of \<open>s.Fields()\<close> are the leaves of the tree, shared by pointer with the
  tree and with the flatten cache: updating their order maps updates the leaves of
  the tree (\<open>observeTree\<close>) and the cached copies alike.
\<close>

fun observeTree :: "string list \<Rightarrow> Field \<Rightarrow> Field" where
  "observeTree rw (Field n sc ix sb c od) =
     (if ix \<noteq> -1 then observe rw (Field n sc ix sb c od)
      else Field n sc ix (map (observeTree rw) sb) c od)"

definition internRow :: "(string \<Rightarrow> 64 word) \<Rightarrow> Schema \<Rightarrow> Config \<times> Schema" where
  "internRow hsh s =
     (let rw = trimRow (row s);
          hash = hsh (concat rw)
      in case find (\<lambda>config. equalRow config rw) (configs s hash) of
           Some config \<Rightarrow> (Some config, s)
         | None \<Rightarrow>
             (let s1 = snd (Fields s);
                  s2 = s1\<lparr>sroot := observeTree rw (sroot s1),
                          flatCache := map_option (map (observe rw)) (flatCache s1)\<rparr>;
                  config = \<lparr>ref = nextRef s2, nschema = Some (sid s2), vals = rw\<rparr>
              in (Some config,
                  s2\<lparr>configs := (configs s2)(hash := configs s2 hash @ [config]),
                     nextRef := nextRef s2 + 1\<rparr>)))"

subsection \<open>Reading a Config\<close>

definition Get :: "Config \<Rightarrow> Field \<Rightarrow> panic + string" where
  "Get c f =
     (case c of
        None \<Rightarrow> Inl (Panic ''zero Config has no fields'')
      | Some n \<Rightarrow>
          if nschema n \<noteq> fschema f then Inl (Panic ''Config and Field have different Schemas'')
          else if idx f \<ge> int (length (vals n)) then Inr []
          else if idx f < 0 then Inl (Panic ''index out of range'')
          else Inr (vals n ! nat (idx f)))"

section \<open>Benchmark results and names (benchfmt)\<close>

text \<open>
  Of a \<open>benchfmt.Result\<close> the projection reads the file configuration (an ordered
  list of key/value pairs), the full name and the units of its values.
  \<open>[]byte\<close> values are strings; a nil slice and an empty one both convert to
  \<open>""\<close>, and where the code tells them apart the model uses an option.
\<close>

record Result =
  FileConfig :: "(string \<times> string) list"
  RName :: string
  Units :: "string list"

text \<open>
  \<open>FileConfigIndex\<close> builds its index by writing \<open>configPos[cfg.Key] = i\<close>
  for every pair in order, so a later pair with the same key wins.
\<close>

definition FileConfigIndex :: "Result \<Rightarrow> string \<Rightarrow> nat option" where
  "FileConfigIndex r key =
     foldl (\<lambda>m (i, cfg). if fst cfg = key then Some i else m) None
       (zip [0..<length (FileConfig r)] (FileConfig r))"

definition isDigit :: "char \<Rightarrow> bool" where
  "isDigit c = (CHR ''0'' \<le> c \<and> c \<le> CHR ''9'')"

text \<open>
  \<open>splitGomaxprocs\<close> scans from the last byte down; the loop at Go index \<open>i\<close> is
  \<open>splitLoop n (i + 1)\<close>, and \<open>None\<close> is the nil \<open>gomaxprocs\<close>.
\<close>

fun splitLoop :: "string \<Rightarrow> nat \<Rightarrow> string \<times> string option" where
  "splitLoop n 0 = (n, None)"
| "splitLoop n (Suc i) =
     (if n ! i = CHR ''-'' \<and> i < length n - 1 then (take i n, Some (drop i n))
      else if \<not> isDigit (n ! i) then (n, None)
      else splitLoop n i)"

definition splitGomaxprocs :: "string \<Rightarrow> string \<times> string option" where
  "splitGomaxprocs n = splitLoop n (length n)"

definition IndexByte :: "string \<Rightarrow> char \<Rightarrow> int" where
  "IndexByte b c = (case find (\<lambda>i. b ! i = c) [0..<length b] of None \<Rightarrow> -1 | Some i \<Rightarrow> int i)"

definition Base :: "string \<Rightarrow> string" where
  "Base n = (let slash = IndexByte n CHR ''/''
             in if slash \<ge> 0 then take (nat slash) n else fst (splitGomaxprocs n))"

text \<open>
  The loop of \<open>Parts\<close> over the bytes of \<open>buf\<close>, with its state \<open>prev\<close> and
  \<open>nameParts\<close>.
\<close>

definition partsStep :: "string \<Rightarrow> nat \<times> string list \<Rightarrow> nat \<Rightarrow> nat \<times> string list" where
  "partsStep buf st i =
     (if buf ! i = CHR ''/'' then (i, snd st @ [take (i - fst st) (drop (fst st) buf)]) else st)"

definition Parts :: "string \<Rightarrow> string \<times> string list" where
  "Parts n =
     (let (buf, gomaxprocs) = splitGomaxprocs n;
          (prev, nameParts) = foldl (partsStep buf) (0, []) [0..<length buf];
          nameParts = nameParts @ [drop prev buf];
          nameParts = (case gomaxprocs of None \<Rightarrow> nameParts | Some g \<Rightarrow> nameParts @ [g])
      in (hd nameParts, tl nameParts))"

section \<open>Extractors\<close>

definition HasPrefix :: "string \<Rightarrow> string \<Rightarrow> bool" where
  "HasPrefix s pre = (length pre \<le> length s \<and> take (length pre) s = pre)"

definition Contains :: "string \<Rightarrow> string \<Rightarrow> bool" where
  "Contains b subslice = list_ex (\<lambda>i. HasPrefix (drop i b) subslice) [0..<Suc (length b)]"

definition extractName :: "Result \<Rightarrow> string" where
  "extractName res = Base (RName res)"

definition extractFull :: "Result \<Rightarrow> string" where
  "extractFull res = RName res"

text \<open>
  The loop over the parts of \<open>extractFullExcluded\<close>: \<open>replaceLoop\<close> is the inner
  loop over the keys, which answers the stand-in of the first key that is a prefix of
  the part. Reading \<open>part[0]\<close> of an empty part panics.
\<close>

fun replaceLoop :: "string list \<Rightarrow> string \<Rightarrow> string option" where
  "replaceLoop [] part = None"
| "replaceLoop (k # ks) part = (if HasPrefix part k then Some (k @ ''*'') else replaceLoop ks part)"

fun excludeLoop :: "string list \<Rightarrow> bool \<Rightarrow> string list \<Rightarrow> string \<Rightarrow> panic + string" where
  "excludeLoop replace excGomaxprocs [] newName = Inr newName"
| "excludeLoop replace excGomaxprocs (part # parts) newName =
     (case replaceLoop replace part of
        Some standin \<Rightarrow> excludeLoop replace excGomaxprocs parts (newName @ standin)
      | None \<Rightarrow>
          if excGomaxprocs then
            (case part of
               [] \<Rightarrow> Inl (Panic ''index out of range'')
             | c # cs \<Rightarrow>
                 if c = CHR ''-'' then excludeLoop replace excGomaxprocs parts (newName @ ''-*'')
                 else excludeLoop replace excGomaxprocs parts (newName @ part))
          else excludeLoop replace excGomaxprocs parts (newName @ part))"

definition extractFullExcluded :: "Result \<Rightarrow> string list \<Rightarrow> bool \<Rightarrow> bool \<Rightarrow> panic + string" where
  "extractFullExcluded res replace excName excGomaxprocs =
     (let name = RName res;
          found = excName;
          found = (if \<not> found then list_ex (\<lambda>k. Contains name k) replace else found);
          found = (if \<not> found \<and> excGomaxprocs \<and> IndexByte name CHR ''-'' \<ge> 0 then True else found)
      in if \<not> found then Inr name
         else (let (base, parts) = Parts (RName res);
                   newName = (if excName then ''*'' else base)
               in excludeLoop replace excGomaxprocs parts newName))"

fun prefixLoop :: "string \<Rightarrow> string list \<Rightarrow> string" where
  "prefixLoop pre [] = []"
| "prefixLoop pre (part # parts) =
     (if HasPrefix part pre then drop (length pre) part else prefixLoop pre parts)"

definition extractNamePart :: "Result \<Rightarrow> string \<Rightarrow> bool \<Rightarrow> panic + string" where
  "extractNamePart res pre isGomaxprocs =
     (let parts = snd (Parts (RName res))
      in if isGomaxprocs \<and> length parts > 0 then
           (case last parts of
              [] \<Rightarrow> Inl (Panic ''index out of range'')
            | c # cs \<Rightarrow> if c = CHR ''-'' then Inr cs else Inr (prefixLoop pre parts))
         else Inr (prefixLoop pre parts))"

definition extractFileKey :: "Result \<Rightarrow> string \<Rightarrow> string" where
  "extractFileKey res key =
     (case FileConfigIndex res key of None \<Rightarrow> [] | Some pos \<Rightarrow> snd (FileConfig res ! pos))"

text \<open>
  An extractor is one of the functions and closures that \<open>newExtractor\<close> and
  \<open>newExtractorFullName\<close> return; \<open>runExtractor\<close> calls it.
\<close>

fun runExtractor :: "extractor \<Rightarrow> Result \<Rightarrow> panic + string" where
  "runExtractor ExtractName res = Inr (extractName res)"
| "runExtractor ExtractFull res = Inr (extractFull res)"
| "runExtractor (ExtractNamePart pre isGomaxprocs) res = extractNamePart res pre isGomaxprocs"
| "runExtractor (ExtractFileKey key) res = Inr (extractFileKey res key)"
| "runExtractor (ExtractFullExcluded replace excName excGomaxprocs) res =
     extractFullExcluded res replace excName excGomaxprocs"

definition newExtractor :: "string \<Rightarrow> string + extractor" where
  "newExtractor key =
     (if length key = 0 then Inl ''key must not be empty''
      else if key = ''.name'' then Inr ExtractName
      else if key = ''.fullname'' then Inr ExtractFull
      else if HasPrefix key ''/'' then Inr (ExtractNamePart (key @ ''='') (key = ''/gomaxprocs''))
      else Inr (ExtractFileKey key))"

text \<open>
  The loop of \<open>newExtractorFullName\<close> over the exclude list, with its state
  \<open>(replace, excName, excGomaxprocs)\<close>.
\<close>

definition excludeStep :: "string list \<times> bool \<times> bool \<Rightarrow> string \<Rightarrow> string list \<times> bool \<times> bool" where
  "excludeStep st k =
     (case st of (replace, excName, excGomaxprocs) \<Rightarrow>
        (let excName = (if k = ''.name'' then True else excName)
         in if \<not> HasPrefix k ''/'' then (replace, excName, excGomaxprocs)
            else (replace @ [k @ ''=''], excName,
                  (if k = ''/gomaxprocs'' then True else excGomaxprocs))))"

definition newExtractorFullName :: "string list \<Rightarrow> extractor" where
  "newExtractorFullName exclude =
     (case foldl excludeStep ([], False, False) exclude of (replace, excName, excGomaxprocs) \<Rightarrow>
        if length replace = 0 \<and> \<not> excName \<and> \<not> excGomaxprocs then ExtractFull
        else ExtractFullExcluded replace excName excGomaxprocs)"

section \<open>Projections of a ProjectionParser\<close>

record ProjectionParser =
  configKeys :: "string list"
  fullnameKeys :: "string list"
  haveConfig :: bool
  haveFullname :: bool
  fullExtractor :: "extractor option"

definition newProjectionParser :: ProjectionParser where
  "newProjectionParser = \<lparr>configKeys = [], fullnameKeys = [], haveConfig = False,
     haveFullname = False, fullExtractor = None\<rparr>"

record Projection =
  Key :: string
  Order :: string
  Fixed :: "string list"
  KeyOff :: nat
  OrderOff :: nat

record SyntaxError =
  Query :: string
  Off :: nat
  Msg :: string

text \<open>
  The filter that a fixed order implies: the closure made by \<open>makeFilter\<close>, which
  keeps a result when the extracted value is a key of \<open>fixedMap\<close>.
\<close>

datatype filterFn = FixedFilter extractor "string list"

definition builtinOrders :: "string \<Rightarrow> cmpKind option" where
  "builtinOrders name = (if name = ''alpha'' then Some CmpAlpha
     else if name = ''num'' then Some CmpNum else None)"

text \<open>
  \<open>initField\<close> writes through the pointer of the field it is given, so the leaf of
  the tree with that storage index changes: the fixed and built-in orders set
  \<open>cmp\<close>, the observation order also makes the \<open>order\<close> map.
\<close>

definition initLeaf :: "cmpKind \<Rightarrow> Field \<Rightarrow> Field" where
  "initLeaf k fld = Field (Name fld) (fschema fld) (idx fld) (sub fld) k
     (if k = CmpFirst then Some [] else forder fld)"

fun initTree :: "cmpKind \<Rightarrow> int \<Rightarrow> Field \<Rightarrow> Field" where
  "initTree k i (Field n sc ix sb c od) =
     (if ix \<noteq> -1 then (if ix = i then initLeaf k (Field n sc ix sb c od) else Field n sc ix sb c od)
      else Field n sc ix (map (initTree k i) sb) c od)"

definition initField :: "cmpKind \<Rightarrow> Field \<Rightarrow> Schema \<Rightarrow> Schema" where
  "initField k fld s = s\<lparr>sroot := initTree k (idx fld) (sroot s),
     flatCache := map_option (map (\<lambda>f. if idx f = idx fld then initLeaf k f else f)) (flatCache s)\<rparr>"

text \<open>
  The \<open>%q\<close> verb on a string of printable ASCII characters: the string between double
  quotes, with a backslash before every double quote and backslash.
\<close>

definition quoteQ :: "string \<Rightarrow> string" where
  "quoteQ w = ''\"'' @ concat (map (\<lambda>c. if c = CHR ''\"'' \<or> c = CHR 0x5C then [CHR 0x5C, c] else [c]) w) @ ''\"''"

text \<open>
  \<open>makeProjection\<close> changes the parser it belongs to also when it fails, so the
  parser is returned beside the result. A panic of \<open>addField\<close> or \<open>addGroup\<close>
  is the outer \<open>Inl\<close>.
\<close>

definition makeProjection :: "ProjectionParser \<Rightarrow> Schema \<Rightarrow> string \<Rightarrow> Projection
    \<Rightarrow> panic + (ProjectionParser \<times> (SyntaxError + (filterFn option \<times> Schema)))" where
  "makeProjection p s q proj =
     (case (if Order proj = ''fixed'' then Some (CmpFixed (Fixed proj))
            else if Order proj = ''first'' then Some CmpFirst
            else builtinOrders (Order proj)) of
        None \<Rightarrow> Inr (p, Inl \<lparr>Query = q, Off = OrderOff proj,
                    Msg = ''unknown order '' @ quoteQ (Order proj)\<rparr>)
      | Some k \<Rightarrow>
          (let makeFilter = (\<lambda>ext. if Order proj = ''fixed'' then Some (FixedFilter ext (Fixed proj)) else None)
           in if Key proj = ''.config'' then
                (if Order proj = ''fixed'' then
                   Inr (p, Inl \<lparr>Query = q, Off = OrderOff proj,
                                Msg = ''fixed order not allowed for .config''\<rparr>)
                 else (case addGroup s [] ''.config'' of
                         Inl e \<Rightarrow> Inl e
                       | Inr (grp, s1) \<Rightarrow>
                           Inr (p\<lparr>haveConfig := True\<rparr>,
                                Inr (None, s1\<lparr>project := project s1 @ [ProjConfig grp k []]\<rparr>))))
              else if Key proj = ''.fullname'' then
                (case addField s [] ''.fullname'' of
                   Inl e \<Rightarrow> Inl e
                 | Inr (fld, s1) \<Rightarrow>
                     (let s2 = initField k fld s1
                      in Inr (p\<lparr>haveFullname := True\<rparr>,
                              Inr (makeFilter ExtractFull,
                                   s2\<lparr>project := project s2 @ [ProjFullname (initLeaf k fld)]\<rparr>))))
              else
                (let p1 = (if Key proj = ''.name'' \<or> HasPrefix (Key proj) ''/''
                           then p\<lparr>fullnameKeys := fullnameKeys p @ [Key proj]\<rparr>
                           else p\<lparr>configKeys := Key proj # configKeys p\<rparr>)
                 in case newExtractor (Key proj) of
                      Inl err \<Rightarrow> Inr (p1, Inl \<lparr>Query = q, Off = KeyOff proj, Msg = err\<rparr>)
                    | Inr ext \<Rightarrow>
                        (case addField s [] (Key proj) of
                           Inl e \<Rightarrow> Inl e
                         | Inr (fld, s1) \<Rightarrow>
                             (let s2 = initField k fld s1
                              in Inr (p1, Inr (makeFilter ext,
                                   s2\<lparr>project := project s2 @ [ProjKey ext (initLeaf k fld)]\<rparr>)))))))"

text \<open>
  The loop of \<open>Parse\<close> over the parsed parts. It answers the parser, and either the
  first syntax error or the schema with the filter parts collected so far.
\<close>

fun parseLoop :: "ProjectionParser \<Rightarrow> Schema \<Rightarrow> string \<Rightarrow> Projection list \<Rightarrow> filterFn list
    \<Rightarrow> panic + (ProjectionParser \<times> (SyntaxError + (Schema \<times> filterFn list)))" where
  "parseLoop p s q [] filterParts = Inr (p, Inr (s, filterParts))"
| "parseLoop p s q (part # parts) filterParts =
     (case makeProjection p s q part of
        Inl e \<Rightarrow> Inl e
      | Inr (p1, Inl err) \<Rightarrow> Inr (p1, Inl err)
      | Inr (p1, Inr (f, s1)) \<Rightarrow>
          parseLoop p1 s1 q parts (case f of None \<Rightarrow> filterParts | Some g \<Rightarrow> filterParts @ [g]))"

section \<open>Projecting a result\<close>

definition setRow :: "Schema \<Rightarrow> int \<Rightarrow> string \<Rightarrow> panic + Schema" where
  "setRow s i v = (if 0 \<le> i \<and> i < int (length (row s))
     then Inr (s\<lparr>row := (row s)[nat i := v]\<rparr>)
     else Inl (Panic ''index out of range''))"

text \<open>
  The loop of the \<open>.config\<close> closure over the file configuration of the result; its
  state is the closure's map \<open>seen\<close> and the schema, which grows by a field for
  every new key that is not a specific key of the parser.
\<close>

fun configLoop :: "string list \<Rightarrow> nat list \<Rightarrow> cmpKind \<Rightarrow> (string \<times> string) list
    \<Rightarrow> (string \<times> Field) list \<Rightarrow> Schema \<Rightarrow> panic + ((string \<times> Field) list \<times> Schema)" where
  "configLoop ck grp k [] seen s = Inr (seen, s)"
| "configLoop ck grp k (cfg # rest) seen s =
     (case map_of seen (fst cfg) of
        Some fld \<Rightarrow>
          (case setRow s (idx fld) (snd cfg) of
             Inl e \<Rightarrow> Inl e
           | Inr s1 \<Rightarrow> configLoop ck grp k rest seen s1)
      | None \<Rightarrow>
          if fst cfg \<in> set ck then configLoop ck grp k rest seen s
          else (case addField s grp (fst cfg) of
                  Inl e \<Rightarrow> Inl e
                | Inr (fld, s1) \<Rightarrow>
                    (case setRow (initField k fld s1) (idx fld) (snd cfg) of
                       Inl e \<Rightarrow> Inl e
                     | Inr s2 \<Rightarrow> configLoop ck grp k rest ((fst cfg, initLeaf k fld) # seen) s2)))"

fun runProj :: "projFn \<Rightarrow> Result \<Rightarrow> ProjectionParser \<Rightarrow> Schema
    \<Rightarrow> panic + (projFn \<times> ProjectionParser \<times> Schema)" where
  "runProj (ProjConfig grp k seen) r p s =
     (case configLoop (configKeys p) grp k (FileConfig r) seen s of
        Inl e \<Rightarrow> Inl e
      | Inr (seen1, s1) \<Rightarrow> Inr (ProjConfig grp k seen1, p, s1))"
| "runProj (ProjFullname fld) r p s =
     (let p1 = (if fullExtractor p = None
                then p\<lparr>fullExtractor := Some (newExtractorFullName (fullnameKeys p))\<rparr> else p)
      in case runExtractor (the (fullExtractor p1)) r of
           Inl e \<Rightarrow> Inl e
         | Inr val \<Rightarrow>
             (case setRow s (idx fld) val of
                Inl e \<Rightarrow> Inl e
              | Inr s1 \<Rightarrow> Inr (ProjFullname fld, p1, s1)))"
| "runProj (ProjKey ext fld) r p s =
     (case runExtractor ext r of
        Inl e \<Rightarrow> Inl e
      | Inr val \<Rightarrow>
          (case setRow s (idx fld) val of
             Inl e \<Rightarrow> Inl e
           | Inr s1 \<Rightarrow> Inr (ProjKey ext fld, p, s1)))"

text \<open>
  The loop of \<open>populateRow\<close> over \<open>s.project\<close>: \<open>done\<close> are the closures already
  run (with their new state), \<open>todo\<close> the ones still to run.
\<close>

fun projectLoop :: "projFn list \<Rightarrow> projFn list \<Rightarrow> Result \<Rightarrow> ProjectionParser \<Rightarrow> Schema
    \<Rightarrow> panic + (ProjectionParser \<times> Schema)" where
  "projectLoop done [] r p s = Inr (p, s\<lparr>project := done\<rparr>)"
| "projectLoop done (f # todo) r p s =
     (case runProj f r p s of
        Inl e \<Rightarrow> Inl e
      | Inr (f1, p1, s1) \<Rightarrow> projectLoop (done @ [f1]) todo r p1 s1)"

definition populateRow :: "Result \<Rightarrow> ProjectionParser \<Rightarrow> Schema \<Rightarrow> panic + (ProjectionParser \<times> Schema)" where
  "populateRow r p s = projectLoop [] (project s) r p (s\<lparr>row := map (\<lambda>_. []) (row s)\<rparr>)"

definition Project :: "(string \<Rightarrow> 64 word) \<Rightarrow> Result \<Rightarrow> ProjectionParser \<Rightarrow> Schema
    \<Rightarrow> panic + (Config \<times> ProjectionParser \<times> Schema)" where
  "Project hsh r p s =
     (case populateRow r p s of
        Inl e \<Rightarrow> Inl e
      | Inr (p1, s1) \<Rightarrow> (case internRow hsh s1 of (c, s2) \<Rightarrow> Inr (c, p1, s2)))"

section \<open>Ordering\<close>

subsection \<open>Numbers\<close>

text \<open>
  A \<open>float64\<close> is NaN, an infinity, or a finite value. Finite values are real
  numbers: the model is exact, it does not round and does not overflow, so it agrees
  with the machine wherever the machine's result is exact. The two zeros are one
  value; they compare equal in Go as well.
\<close>

datatype float64 = NaN | NegInf | Fin real | PosInf

definition IsNaN :: "float64 \<Rightarrow> bool" where
  "IsNaN f = (f = NaN)"

fun flt :: "float64 \<Rightarrow> float64 \<Rightarrow> bool" where
  "flt NaN b = False"
| "flt a NaN = False"
| "flt NegInf b = (b \<noteq> NegInf)"
| "flt (Fin x) NegInf = False"
| "flt (Fin x) (Fin y) = (x < y)"
| "flt (Fin x) PosInf = True"
| "flt PosInf b = False"

fun fmul :: "float64 \<Rightarrow> float64 \<Rightarrow> float64" where
  "fmul NaN b = NaN"
| "fmul a NaN = NaN"
| "fmul (Fin x) (Fin y) = Fin (x * y)"
| "fmul (Fin x) PosInf = (if x = 0 then NaN else if x < 0 then NegInf else PosInf)"
| "fmul (Fin x) NegInf = (if x = 0 then NaN else if x < 0 then PosInf else NegInf)"
| "fmul PosInf (Fin y) = (if y = 0 then NaN else if y < 0 then NegInf else PosInf)"
| "fmul NegInf (Fin y) = (if y = 0 then NaN else if y < 0 then PosInf else NegInf)"
| "fmul PosInf PosInf = PosInf"
| "fmul PosInf NegInf = NegInf"
| "fmul NegInf PosInf = NegInf"
| "fmul NegInf NegInf = PosInf"

definition Pow :: "real \<Rightarrow> nat \<Rightarrow> float64" where
  "Pow x n = Fin (x ^ n)"

definition numPrefixes :: string where
  "numPrefixes = ''KMGTPEZY''"

definition isNumChar :: "char \<Rightarrow> bool" where
  "isNumChar c = (isDigit c \<or> c = CHR ''.'')"

text \<open>
  \<open>numRe.FindStringSubmatch\<close> for the pattern
  \<^verbatim>\<open>([0-9.]+)([kKMGTPEZY]i?)?[bB]?\<close>: the leftmost match starts at the first byte
  that is a digit or a dot; the first group is the longest run of such bytes from
  there; the second group is the prefix letter that follows, if any, with an
  \<open>i\<close> after it, if any. The answer is the pair of the two groups.
\<close>

definition numReSubmatch :: "string \<Rightarrow> (string \<times> string) option" where
  "numReSubmatch x =
     (case dropWhile (\<lambda>c. \<not> isNumChar c) x of
        [] \<Rightarrow> None
      | c # cs \<Rightarrow>
          (let num = takeWhile isNumChar (c # cs);
               rest = dropWhile isNumChar (c # cs);
               pre = (case rest of
                        [] \<Rightarrow> []
                      | d # ds \<Rightarrow>
                          if d \<in> set (''k'' @ numPrefixes)
                          then (case ds of [] \<Rightarrow> [d] | e # es \<Rightarrow> if e = CHR ''i'' then [d, e] else [d])
                          else [])
           in Some (num, pre)))"

text \<open>
  \<open>strconv.ParseFloat\<close> belongs to the Go library: it is the parameter \<open>pf\<close>,
  which answers \<open>None\<close> for an error.
\<close>

definition parseNum :: "(string \<Rightarrow> float64 option) \<Rightarrow> string \<Rightarrow> float64 option" where
  "parseNum pf x =
     (case pf x of
        Some v \<Rightarrow> Some v
      | None \<Rightarrow>
          (case numReSubmatch x of
             None \<Rightarrow> None
           | Some (s1, s2) \<Rightarrow>
               (case pf s1 of
                  None \<Rightarrow> None
                | Some v \<Rightarrow>
                    (let exp = (if length s2 > 0
                                then (let pre = hd s2; pre = (if pre = CHR ''k'' then CHR ''K'' else pre)
                                      in nat (1 + IndexByte numPrefixes pre))
                                else 0);
                         iec = (s2 \<noteq> [] \<and> last s2 = CHR ''i'')
                     in if iec then Some (fmul v (Pow 1024 exp))
                        else Some (fmul v (Pow 1000 exp))))))"

subsection \<open>Comparison functions\<close>

definition alphaCmp :: "string \<Rightarrow> string \<Rightarrow> int" where
  "alphaCmp a b = (if a = b then 0 else if a < b then -1 else 1)"

definition numCmp :: "(string \<Rightarrow> float64 option) \<Rightarrow> string \<Rightarrow> string \<Rightarrow> int" where
  "numCmp pf a b =
     (case (parseNum pf a, parseNum pf b) of
        (Some aa, Some bb) \<Rightarrow>
          if flt aa bb \<or> (\<not> IsNaN aa \<and> IsNaN bb) then -1
          else if flt bb aa \<or> (IsNaN aa \<and> \<not> IsNaN bb) then 1
          else 0
      | (None, None) \<Rightarrow> 0
      | (Some aa, None) \<Rightarrow> -1
      | (None, Some bb) \<Rightarrow> 1)"

text \<open>
  \<open>fixedMap\<close> is filled by \<open>fixedMap[s] = i\<close> for the words in order, so the last
  position of a word wins; reading a missing key of a Go map gives \<open>0\<close>.
\<close>

definition fixedMap :: "string list \<Rightarrow> string \<Rightarrow> nat option" where
  "fixedMap ws = foldl (\<lambda>m (i, w). m(w \<mapsto> i)) Map.empty (zip [0..<length ws] ws)"

definition mapGet :: "nat option \<Rightarrow> int" where
  "mapGet v = (case v of None \<Rightarrow> 0 | Some i \<Rightarrow> int i)"

definition fieldCmp :: "(string \<Rightarrow> float64 option) \<Rightarrow> Field \<Rightarrow> string \<Rightarrow> string \<Rightarrow> panic + int" where
  "fieldCmp pf node a b =
     (case fcmp node of
        CmpNil \<Rightarrow> Inl (Panic ''nil pointer dereference'')
      | CmpFixed ws \<Rightarrow> Inr (mapGet (fixedMap ws a) - mapGet (fixedMap ws b))
      | CmpFirst \<Rightarrow>
          (case forder node of
             None \<Rightarrow> Inr 0
           | Some om \<Rightarrow> Inr (mapGet (map_of om a) - mapGet (map_of om b)))
      | CmpAlpha \<Rightarrow> Inr (alphaCmp a b)
      | CmpNum \<Rightarrow> Inr (numCmp pf a b))"

subsection \<open>The tuple order\<close>

definition valAt :: "string list \<Rightarrow> int \<Rightarrow> string" where
  "valAt a i = (if i < int (length a) then a ! nat i else [])"

fun less_tuples :: "(string \<Rightarrow> float64 option) \<Rightarrow> Field list \<Rightarrow> string list \<Rightarrow> string list
    \<Rightarrow> panic + bool" where
  "less_tuples pf [] a b = Inr False"
| "less_tuples pf (node # flat) a b =
     (if idx node < 0 then Inl (Panic ''index out of range'')
      else (let aa = valAt a (idx node); bb = valAt b (idx node)
            in if aa \<noteq> bb then
                 (case fieldCmp pf node aa bb of
                    Inl e \<Rightarrow> Inl e
                  | Inr c \<Rightarrow> if c \<noteq> 0 then Inr (c < 0) else Inr (aa < bb))
               else less_tuples pf flat a b))"

text \<open>
  \<open>Config.Less\<close>; \<open>s\<close> is the Schema that the Config \<open>c\<close> points to.
\<close>

definition Less :: "(string \<Rightarrow> float64 option) \<Rightarrow> Schema \<Rightarrow> Config \<Rightarrow> Config \<Rightarrow> panic + bool" where
  "Less pf s c o' =
     (case (c, o') of
        (Some n, Some m) \<Rightarrow>
          if nschema n \<noteq> nschema m then Inl (Panic ''cannot compare Configs from different Schemas'')
          else less_tuples pf (fst (Fields s)) (vals n) (vals m)
      | _ \<Rightarrow> Inl (Panic ''nil pointer dereference''))"

section \<open>Config headers\<close>

record ConfigHeader =
  HField :: int
  Start :: nat
  Len :: nat
  Value :: string

definition Schema_of :: "Config \<Rightarrow> nat option" where
  "Schema_of c = (case c of None \<Rightarrow> None | Some n \<Rightarrow> nschema n)"

definition commonSchema :: "Config list \<Rightarrow> panic + nat option" where
  "commonSchema cfgs =
     (if length cfgs = 0 then Inr None
      else (let s = Schema_of (hd cfgs)
            in if list_all (\<lambda>c. Schema_of c = s) (tl cfgs) then Inr s
               else Inl (Panic ''Configs must all have the same Schema'')))"

text \<open>
  The innermost loop of \<open>NewConfigHeader\<close>, over the Configs of one parent span.
  \<open>pos\<close> is \<open>parent.Start + j\<close>, \<open>lv\<close> is \<open>levels[i]\<close>, and \<open>has\<close> tells
  that \<open>node\<close> is not nil; \<open>node\<close> then points to the last element of \<open>lv\<close>,
  the one appended last, so \<open>node.Len++\<close> changes that element.
\<close>

fun spanLoop :: "nat \<Rightarrow> Field \<Rightarrow> nat \<Rightarrow> Config list \<Rightarrow> bool \<Rightarrow> ConfigHeader list
    \<Rightarrow> panic + ConfigHeader list" where
  "spanLoop i fld pos [] has lv = Inr lv"
| "spanLoop i fld pos (config # rest) has lv =
     (case Get config fld of
        Inl e \<Rightarrow> Inl e
      | Inr val \<Rightarrow>
          if has \<and> val = Value (last lv)
          then spanLoop i fld (pos + 1) rest True (butlast lv @ [(last lv)\<lparr>Len := Len (last lv) + 1\<rparr>])
          else spanLoop i fld (pos + 1) rest True
                 (lv @ [\<lparr>HField = int i, Start = pos, Len = 1, Value = val\<rparr>]))"

text \<open>
  The loop over the nodes of the previous level. Slicing the Configs past their end
  panics.
\<close>

fun parentLoop :: "nat \<Rightarrow> Field \<Rightarrow> Config list \<Rightarrow> ConfigHeader list \<Rightarrow> ConfigHeader list
    \<Rightarrow> panic + ConfigHeader list" where
  "parentLoop i fld cfgs [] lv = Inr lv"
| "parentLoop i fld cfgs (parent # parents) lv =
     (if Start parent + Len parent > length cfgs then Inl (Panic ''slice bounds out of range'')
      else (case spanLoop i fld (Start parent) (take (Len parent) (drop (Start parent) cfgs)) False lv of
              Inl e \<Rightarrow> Inl e
            | Inr lv1 \<Rightarrow> parentLoop i fld cfgs parents lv1))"

text \<open>
  The loop over the fields; it answers the levels from \<open>i\<close> on.
\<close>

fun levelLoop :: "nat \<Rightarrow> Field list \<Rightarrow> Config list \<Rightarrow> ConfigHeader list
    \<Rightarrow> panic + ConfigHeader list list" where
  "levelLoop i [] cfgs prevLevel = Inr []"
| "levelLoop i (fld # flds) cfgs prevLevel =
     (case parentLoop i fld cfgs prevLevel [] of
        Inl e \<Rightarrow> Inl e
      | Inr lv \<Rightarrow>
          (case levelLoop (i + 1) flds cfgs lv of
             Inl e \<Rightarrow> Inl e
           | Inr lvs \<Rightarrow> Inr (lv # lvs)))"

text \<open>
  \<open>NewConfigHeader\<close>; \<open>s\<close> is the Schema that \<open>commonSchema\<close> points to. The nil
  result for no Configs is the empty list of levels.
\<close>

definition NewConfigHeader :: "Schema \<Rightarrow> Config list \<Rightarrow> panic + ConfigHeader list list" where
  "NewConfigHeader s cfgs =
     (if length cfgs = 0 then Inr []
      else (case commonSchema cfgs of
              Inl e \<Rightarrow> Inl e
            | Inr None \<Rightarrow> Inl (Panic ''nil pointer dereference'')
            | Inr (Some sp) \<Rightarrow>
                levelLoop 0 (fst (Fields s)) cfgs
                  [\<lparr>HField = -1, Start = 0, Len = length cfgs, Value = []\<rparr>]))"

subsection \<open>Printing a Config\<close>



section \<open>Invariants and specifications\<close>

text \<open>
  The Configs that a Schema has interned, and what its table keeps true of them:
  every node sits in the bucket of the hash of its values, points to this Schema, is
  trimmed and no longer than the row buffer, and was allocated before \<open>nextRef\<close>;
  no two nodes share a pointer or a tuple of values; the row buffer has one slot per
  field.
\<close>

definition nodes :: "Schema \<Rightarrow> configNode set" where
  "nodes s = (\<Union>h. set (configs s h))"

definition tableInv :: "(string \<Rightarrow> 64 word) \<Rightarrow> Schema \<Rightarrow> bool" where
  "tableInv hsh s \<longleftrightarrow>
     (\<forall>h. \<forall>n \<in> set (configs s h).
        hsh (concat (vals n)) = h \<and> ref n < nextRef s \<and> nschema n = Some (sid s)
        \<and> length (vals n) \<le> nFields s \<and> trimRow (vals n) = vals n)
     \<and> (\<forall>n \<in> nodes s. \<forall>m \<in> nodes s. ref n = ref m \<or> vals n = vals m \<longrightarrow> n = m)
     \<and> length (row s) = nFields s"

text \<open>
  \<open>projected hsh s s'\<close>: the Schema \<open>s'\<close> is \<open>s\<close> after any number of calls of
  \<open>Project\<close>, on any results and with the parser in any state.
\<close>

inductive projected :: "(string \<Rightarrow> 64 word) \<Rightarrow> Schema \<Rightarrow> Schema \<Rightarrow> bool" for hsh where
  projected_refl: "projected hsh s s"
| projected_step: "projected hsh s s1 \<Longrightarrow> Project hsh r p s1 = Inr (c, p2, s2) \<Longrightarrow> projected hsh s s2"

text \<open>
  The trimmed tuple of values that projecting a result fills the row buffer with.
\<close>

definition tupleOf :: "Result \<Rightarrow> ProjectionParser \<Rightarrow> Schema \<Rightarrow> string list" where
  "tupleOf r p s = (case populateRow r p s of Inl e \<Rightarrow> [] | Inr (p1, s1) \<Rightarrow> trimRow (row s1))"

text \<open>
  \<open>grows s s'\<close>: \<open>s'\<close> is \<open>s\<close> with the same table of Configs and possibly
  more fields.
\<close>

definition grows :: "Schema \<Rightarrow> Schema \<Rightarrow> bool" where
  "grows s s' \<longleftrightarrow> configs s' = configs s \<and> nextRef s' = nextRef s \<and> sid s' = sid s
     \<and> nFields s \<le> nFields s' \<and> (length (row s) = nFields s \<longrightarrow> length (row s') = nFields s')"

subsection \<open>A concrete schema\<close>

text \<open>
  The schema of the projection \<open>a,.config@alpha\<close>, a hash that only looks at the
  length of what is written (so that different tuples do collide), and three results.
\<close>

definition exHash :: "string \<Rightarrow> 64 word" where
  "exHash x = of_nat (length x)"

definition exParts :: "Projection list" where
  "exParts = [\<lparr>Key = ''a'', Order = ''first'', Fixed = [], KeyOff = 0, OrderOff = 1\<rparr>,
              \<lparr>Key = ''.config'', Order = ''alpha'', Fixed = [], KeyOff = 2, OrderOff = 10\<rparr>]"

definition exSchema :: Schema where
  "exSchema = (case parseLoop newProjectionParser (newSchema 1) ''a,.config@alpha'' exParts [] of
                 Inr (p, Inr (s, fs)) \<Rightarrow> s | _ \<Rightarrow> newSchema 1)"

definition exParser :: ProjectionParser where
  "exParser = (case parseLoop newProjectionParser (newSchema 1) ''a,.config@alpha'' exParts [] of
                 Inr (p, r) \<Rightarrow> p | _ \<Rightarrow> newProjectionParser)"

definition exR1 :: Result where
  "exR1 = \<lparr>FileConfig = [(''a'', ''1''), (''b'', ''2'')], RName = ''Name/x=1'', Units = []\<rparr>"

definition exR2 :: Result where
  "exR2 = \<lparr>FileConfig = [(''b'', ''2''), (''a'', ''1''), (''c'', '''')], RName = ''Other'', Units = []\<rparr>"

definition exR3 :: Result where
  "exR3 = \<lparr>FileConfig = [(''a'', ''1''), (''b'', ''3'')], RName = ''Name/x=1'', Units = []\<rparr>"

text \<open>
  What the tree of a Schema keeps true: a node with a storage index has no
  children and its index is not negative; the root is a group; every storage index
  in the tree is below \<open>nFields\<close>; the flatten cache, when there is one, is the
  flattening of the tree.
\<close>

fun treeOK :: "Field \<Rightarrow> bool" where
  "treeOK (Field n sc ix sb c od) = (if ix \<noteq> -1 then sb = [] \<and> 0 \<le> ix else (\<forall>f \<in> set sb. treeOK f))"

definition treeInv :: "Schema \<Rightarrow> bool" where
  "treeInv s \<longleftrightarrow> treeOK (sroot s) \<and> idx (sroot s) = -1
     \<and> (\<forall>f \<in> set (walk (sroot s)). idx f < int (nFields s))
     \<and> (case flatCache s of None \<Rightarrow> True | Some c \<Rightarrow> c = walk (sroot s))"

text \<open>
  The order of the values of one field: the field's comparison function decides,
  and where it answers \<open>0\<close> the byte-wise order of the strings does.
\<close>

definition fieldLt :: "(string \<Rightarrow> float64 option) \<Rightarrow> Field \<Rightarrow> string \<Rightarrow> string \<Rightarrow> bool" where
  "fieldLt pf f x y =
     (case fieldCmp pf f x y of Inl e \<Rightarrow> False | Inr c \<Rightarrow> if c \<noteq> 0 then c < 0 else x < y)"

text \<open>
  Every storage index of the Schema belongs to a field of its tree.
\<close>

definition covered :: "Schema \<Rightarrow> bool" where
  "covered s \<longleftrightarrow> (\<forall>i \<in> {0..<nFields s}. \<exists>f \<in> set (walk (sroot s)). idx f = int i)"

text \<open>A comparison function that is a total preorder.\<close>

definition cmpOK :: "(string \<Rightarrow> string \<Rightarrow> int) \<Rightarrow> bool" where
  "cmpOK c \<longleftrightarrow> (\<forall>x y. (c x y < 0) = (c y x > 0)) \<and> (\<forall>x y z. c x y \<le> 0 \<and> c y z \<le> 0 \<longrightarrow> c x z \<le> 0)"

text \<open>The comparison of \<open>num\<close> as a function of the two parse results.\<close>

definition numOrd :: "float64 option \<Rightarrow> float64 option \<Rightarrow> int" where
  "numOrd pa pb = (case (pa, pb) of
        (Some aa, Some bb) \<Rightarrow>
          if flt aa bb \<or> (\<not> IsNaN aa \<and> IsNaN bb) then -1
          else if flt bb aa \<or> (IsNaN aa \<and> \<not> IsNaN bb) then 1
          else 0
      | (None, None) \<Rightarrow> 0
      | (Some aa, None) \<Rightarrow> -1
      | (None, Some bb) \<Rightarrow> 1)"

text \<open>The comparison function of a field that has one.\<close>

definition cmpOf :: "(string \<Rightarrow> float64 option) \<Rightarrow> Field \<Rightarrow> string \<Rightarrow> string \<Rightarrow> int" where
  "cmpOf pf f x y = (case fieldCmp pf f x y of Inl e \<Rightarrow> 0 | Inr c \<Rightarrow> c)"

text \<open>The order of one field, from a total preorder and the order of the strings.\<close>

definition lt1 :: "(string \<Rightarrow> string \<Rightarrow> int) \<Rightarrow> string \<Rightarrow> string \<Rightarrow> bool" where
  "lt1 c x y = (if c x y \<noteq> 0 then c x y < 0 else x < y)"

subsection \<open>A model of strconv.ParseFloat\<close>

text \<open>
  \<open>strconv.ParseFloat\<close> is not code of this repository. \<open>ParseFloat\<close> models
  it on the strings that the examples use: the special values (\<open>inf\<close> and
  \<open>infinity\<close> with an optional sign, \<open>nan\<close> without one, in any case) and
  decimal numbers with an optional sign, fraction and exponent, all of which must
  span the whole string. Hexadecimal numbers and underscores between digits are
  answered as errors, and a finite value is never out of range.
\<close>

definition lower :: "char \<Rightarrow> char" where
  "lower c = (if CHR ''A'' \<le> c \<and> c \<le> CHR ''Z'' then char_of (of_char c + (32::nat)) else c)"

definition eqFold :: "string \<Rightarrow> string \<Rightarrow> bool" where
  "eqFold s t = (map lower s = map lower t)"

definition digitsVal :: "string \<Rightarrow> nat" where
  "digitsVal ds = foldl (\<lambda>n c. 10 * n + (of_char c - 48)) 0 ds"

definition special :: "string \<Rightarrow> float64 option" where
  "special s =
     (case s of
        [] \<Rightarrow> None
      | c # cs \<Rightarrow>
          if c = CHR ''+'' \<or> c = CHR ''-'' then
            (if eqFold cs ''inf'' \<or> eqFold cs ''infinity''
             then Some (if c = CHR ''-'' then NegInf else PosInf) else None)
          else if eqFold s ''inf'' \<or> eqFold s ''infinity'' then Some PosInf
          else if eqFold s ''nan'' then Some NaN
          else None)"

definition stripSign :: "string \<Rightarrow> bool \<times> string" where
  "stripSign s = (case s of
       [] \<Rightarrow> (False, [])
     | c # cs \<Rightarrow> if c = CHR ''-'' then (True, cs) else if c = CHR ''+'' then (False, cs) else (False, s))"

definition scale10 :: "real \<Rightarrow> int \<Rightarrow> real" where
  "scale10 x e = (if 0 \<le> e then x * 10 ^ nat e else x / 10 ^ nat (- e))"

definition decimal :: "string \<Rightarrow> float64 option" where
  "decimal s =
     (let (neg, s1) = stripSign s;
          ip = takeWhile isDigit s1;
          r1 = dropWhile isDigit s1;
          (fp, r2) = (case r1 of
                        [] \<Rightarrow> ([], r1)
                      | c # t \<Rightarrow> if c = CHR ''.'' then (takeWhile isDigit t, dropWhile isDigit t) else ([], r1));
          mant = (if neg then - real (digitsVal (ip @ fp)) else real (digitsVal (ip @ fp)))
      in if ip = [] \<and> fp = [] then None
         else (case r2 of
                 [] \<Rightarrow> Some (Fin (scale10 mant (- int (length fp))))
               | c # t \<Rightarrow>
                   if c = CHR ''e'' \<or> c = CHR ''E'' then
                     (let (eneg, ds) = stripSign t
                      in if ds \<noteq> [] \<and> list_all isDigit ds
                         then Some (Fin (scale10 mant
                                ((if eneg then - int (digitsVal ds) else int (digitsVal ds)) - int (length fp))))
                         else None)
                   else None))"

definition ParseFloat :: "string \<Rightarrow> float64 option" where
  "ParseFloat s = (case special s of Some v \<Rightarrow> Some v | None \<Rightarrow> decimal s)"

text \<open>
  A field ordered by \<open>@num\<close>, and the values of the sort test in the order that the
  test expects.
\<close>

definition numField :: Field where
  "numField = Field ''a'' (Some 1) 0 [] CmpNum None"

definition weird :: "string list" where
  "weird = [''-inf'', ''-infinity'', ''1'', ''1.0'', ''inf'', ''infinity'', ''NaN'', ''nan'']"

definition numLess :: "string \<Rightarrow> string \<Rightarrow> bool" where
  "numLess x y = (less_tuples ParseFloat [numField] [x] [y] = Inr True)"

definition rankIn :: "string list \<Rightarrow> string \<Rightarrow> nat" where
  "rankIn xs x = length (takeWhile (\<lambda>y. y \<noteq> x) xs)"

subsection \<open>Stand-ins of the full name\<close>

text \<open>
  The stand-in of one part of a name: \<open>key*\<close> after the first excluded key
  (written with its \<open>=\<close>) that the part begins with, \<open>-*\<close> for a part that
  begins with \<open>-\<close> when gomaxprocs is excluded, and the part itself otherwise.
\<close>

definition standin :: "string list \<Rightarrow> bool \<Rightarrow> string \<Rightarrow> string" where
  "standin replace excGomaxprocs part =
     (case find (\<lambda>k. HasPrefix part k) replace of
        Some k \<Rightarrow> k @ ''*''
      | None \<Rightarrow> if excGomaxprocs \<and> take 1 part = ''-'' then ''-*'' else part)"

text \<open>
  The projection exclusion test: \<open>.fullname,.config\<close> is parsed, then
  \<open>.name,/a,exc\<close> by the same parser, then a result named \<open>Name/a=1/b=2\<close> is
  projected through the first schema and the Config is printed.
\<close>

definition mkProjection :: "string \<Rightarrow> nat \<Rightarrow> Projection" where
  "mkProjection k off = \<lparr>Key = k, Order = ''first'', Fixed = [], KeyOff = off, OrderOff = off + length k\<rparr>"


subsection \<open>What a header must be\<close>

text \<open>
  \<open>spans nds a b\<close>: the nodes follow one another from position \<open>a\<close> to
  position \<open>b\<close>. \<open>isRuns i val start len nds\<close>: the nodes divide the span of
  \<open>len\<close> Configs from \<open>start\<close> into the maximal runs of Configs that share the
  value \<open>val\<close> of field \<open>i\<close>: they follow one another over the span, each has
  at least one Config, carries the field and the value of all its Configs, and two
  neighbours have different values. \<open>subdivides\<close>: the level is made of such a
  division of every parent, in the order of the parents.
\<close>

fun spans :: "ConfigHeader list \<Rightarrow> nat \<Rightarrow> nat \<Rightarrow> bool" where
  "spans [] a b = (a = b)"
| "spans (nd # nds) a b = (Start nd = a \<and> spans nds (a + Len nd) b)"

definition isRuns :: "nat \<Rightarrow> (nat \<Rightarrow> string) \<Rightarrow> nat \<Rightarrow> nat \<Rightarrow> ConfigHeader list \<Rightarrow> bool" where
  "isRuns i val start len nds \<longleftrightarrow>
     spans nds start (start + len)
     \<and> (\<forall>nd \<in> set nds. HField nd = int i \<and> 1 \<le> Len nd
            \<and> (\<forall>k. Start nd \<le> k \<and> k < Start nd + Len nd \<longrightarrow> val k = Value nd))
     \<and> (\<forall>j. Suc j < length nds \<longrightarrow> Value (nds ! j) \<noteq> Value (nds ! Suc j))"

definition subdivides :: "nat \<Rightarrow> (nat \<Rightarrow> string) \<Rightarrow> ConfigHeader list \<Rightarrow> ConfigHeader list \<Rightarrow> bool" where
  "subdivides i val parents lv \<longleftrightarrow>
     (\<exists>parts. lv = concat parts
        \<and> list_all2 (\<lambda>parent part. isRuns i val (Start parent) (Len parent) part) parents parts)"

text \<open>
  The value of a field in the Config at a position of the sequence.
\<close>

definition valueAt :: "Config list \<Rightarrow> Field \<Rightarrow> nat \<Rightarrow> string" where
  "valueAt cfgs fld k = (case cfgs ! k of None \<Rightarrow> [] | Some n \<Rightarrow> valAt (vals n) (idx fld))"

text \<open>
  \<open>headerOK i flds cfgs prev lvs\<close>: there is one level for each field, and each
  level subdivides the one before it, the first one subdividing \<open>prev\<close>.
\<close>

fun headerOK :: "nat \<Rightarrow> Field list \<Rightarrow> Config list \<Rightarrow> ConfigHeader list \<Rightarrow> ConfigHeader list list \<Rightarrow> bool" where
  "headerOK i [] cfgs prev lvs = (lvs = [])"
| "headerOK i (fld # flds) cfgs prev lvs =
     (case lvs of
        [] \<Rightarrow> False
      | lv # rest \<Rightarrow> subdivides i (valueAt cfgs fld) prev lv \<and> headerOK (i + 1) flds cfgs lv rest)"

text \<open>
  The maximal runs of a list of values, built the way the loop builds them:
  \<open>extendRun nd\<close> goes on from the open node \<open>nd\<close>.
\<close>

fun extendRun :: "ConfigHeader \<Rightarrow> nat \<Rightarrow> nat \<Rightarrow> string list \<Rightarrow> ConfigHeader list" where
  "extendRun nd i pos [] = [nd]"
| "extendRun nd i pos (v # vs) =
     (if v = Value nd then extendRun (nd\<lparr>Len := Len nd + 1\<rparr>) i (pos + 1) vs
      else nd # extendRun \<lparr>HField = int i, Start = pos, Len = 1, Value = v\<rparr> i (pos + 1) vs)"

definition runsOf :: "nat \<Rightarrow> nat \<Rightarrow> string list \<Rightarrow> ConfigHeader list" where
  "runsOf i pos vs = (case vs of
       [] \<Rightarrow> []
     | v # rest \<Rightarrow> extendRun \<lparr>HField = int i, Start = pos, Len = 1, Value = v\<rparr> i (pos + 1) rest)"

text \<open>
  The header example: a schema with the fields \<open>a\<close>, \<open>b\<close>, \<open>c\<close> and the four
  Configs \<open>a:1 b:1 c:1\<close>, \<open>a:1 b:1 c:2\<close>, \<open>a:2 b:2 c:2\<close>, \<open>a:2 b:3 c:3\<close>.
\<close>

definition hdrSchema :: Schema where
  "hdrSchema = (case parseLoop newProjectionParser (newSchema 1) ''a,b,c''
                      [mkProjection ''a'' 0, mkProjection ''b'' 2, mkProjection ''c'' 4] [] of
                  Inr (p, Inr (s, fs)) \<Rightarrow> s | _ \<Rightarrow> newSchema 1)"

definition hdrConfigs :: "Config list" where
  "hdrConfigs = map (\<lambda>vs. Some \<lparr>ref = 0, nschema = Some 1, vals = vs\<rparr>)
     [[''1'', ''1'', ''1''], [''1'', ''1'', ''2''], [''2'', ''2'', ''2''], [''2'', ''3'', ''3'']]"

definition hdrNode :: "int \<Rightarrow> nat \<Rightarrow> nat \<Rightarrow> string \<Rightarrow> ConfigHeader" where
  "hdrNode f st n v = \<lparr>HField = f, Start = st, Len = n, Value = v\<rparr>"

text \<open>
  The storage indexes of the fields of the tree are the numbers below
  \<open>nFields\<close>, each of them once.
\<close>

definition indexInv :: "Schema \<Rightarrow> bool" where
  "indexInv s \<longleftrightarrow> distinct (map idx (walk (sroot s)))
     \<and> set (map idx (walk (sroot s))) = int ` {0..<nFields s}"

text \<open>
  \<open>schemaInv\<close> puts the two invariants of the tree together.
\<close>

definition schemaInv :: "Schema \<Rightarrow> bool" where
  "schemaInv s \<longleftrightarrow> treeInv s \<and> indexInv s"

section \<open>Properties\<close>

subsection \<open>Trimmed rows\<close>


lemma trimRow_length: "length (trimRow rw) \<le> length rw"
proof (induction rw rule: trimRow.induct)
  case (1 rw)
  show ?case
  proof (cases "rw \<noteq> [] \<and> last rw = []")
    case True
    then have "trimRow rw = trimRow (butlast rw)" by (subst trimRow.simps) simp
    with 1 True show ?thesis by fastforce
  next
    case False
    then have "trimRow rw = rw" by (subst trimRow.simps) auto
    then show ?thesis by simp
  qed
qed

lemma trimRow_last: "trimRow rw = [] \<or> last (trimRow rw) \<noteq> []"
proof (induction rw rule: trimRow.induct)
  case (1 rw)
  show ?case
  proof (cases "rw \<noteq> [] \<and> last rw = []")
    case True
    then have "trimRow rw = trimRow (butlast rw)" by (subst trimRow.simps) simp
    with 1 True show ?thesis by fastforce
  next
    case False
    then have "trimRow rw = rw" by (subst trimRow.simps) auto
    with False show ?thesis by auto
  qed
qed

lemma trimRow_fix: "rw = [] \<or> last rw \<noteq> [] \<Longrightarrow> trimRow rw = rw"
  by (subst trimRow.simps) auto

lemma trimRow_idem: "trimRow (trimRow rw) = trimRow rw"
  using trimRow_last [of rw] by (rule trimRow_fix)

lemma valAt_butlast: "rw \<noteq> [] \<Longrightarrow> last rw = [] \<Longrightarrow> 0 \<le> i \<Longrightarrow> valAt (butlast rw) i = valAt rw i"
  by (cases rw rule: rev_cases) (auto simp: valAt_def nth_append)

lemma valAt_trimRow: "0 \<le> i \<Longrightarrow> valAt (trimRow rw) i = valAt rw i"
proof (induction rw rule: trimRow.induct)
  case (1 rw)
  show ?case
  proof (cases "rw \<noteq> [] \<and> last rw = []")
    case True
    then have "trimRow rw = trimRow (butlast rw)" by (subst trimRow.simps) simp
    with 1 True valAt_butlast show ?thesis by fastforce
  next
    case False
    then have "trimRow rw = rw" by (subst trimRow.simps) auto
    then show ?thesis by simp
  qed
qed

lemma trimmed_eqI:
  assumes a: "a = [] \<or> last a \<noteq> []" and b: "b = [] \<or> last b \<noteq> []"
    and eq: "\<And>i. 0 \<le> i \<Longrightarrow> valAt a i = valAt b i"
  shows "a = b"
proof -
  have len: "length x \<le> length y" if x: "x = [] \<or> last x \<noteq> []" and e: "\<And>i. 0 \<le> i \<Longrightarrow> valAt x i = valAt y i" for x y :: "string list"
  proof (rule ccontr)
    assume "\<not> length x \<le> length y"
    then have gt: "length y < length x" by simp
    then have ne: "x \<noteq> []" by auto
    then have "last x = x ! (length x - 1)" by (simp add: last_conv_nth)
    moreover have "valAt x (int (length x - 1)) = x ! (length x - 1)" using ne by (simp add: valAt_def)
    moreover have "valAt y (int (length x - 1)) = []" using gt by (auto simp: valAt_def)
    ultimately show False using x ne e [of "int (length x - 1)"] by simp
  qed
  have l: "length a = length b" using len [OF a eq] len [OF b eq [symmetric]] by simp
  show ?thesis
  proof (rule nth_equalityI [OF l])
    fix i assume "i < length a"
    then show "a ! i = b ! i" using eq [of "int i"] l by (simp add: valAt_def)
  qed
qed

lemma trimRow_eq_iff: "trimRow a = trimRow b \<longleftrightarrow> (\<forall>i\<ge>0. valAt a i = valAt b i)"
proof
  assume "trimRow a = trimRow b"
  then show "\<forall>i\<ge>0. valAt a i = valAt b i" by (metis valAt_trimRow)
next
  assume "\<forall>i\<ge>0. valAt a i = valAt b i"
  then have "\<And>i. 0 \<le> i \<Longrightarrow> valAt (trimRow a) i = valAt (trimRow b) i" by (simp add: valAt_trimRow)
  then show "trimRow a = trimRow b" by (rule trimmed_eqI [OF trimRow_last trimRow_last])
qed

lemma equalRow_iff: "equalRow n rw \<longleftrightarrow> vals n = rw"
proof -
  have "list_all (\<lambda>(i, v). rw ! i = v) (zip [0..<length (vals n)] (vals n)) \<longleftrightarrow> (\<forall>i<length (vals n). rw ! i = vals n ! i)"
    by (auto simp: list_all_length)
  moreover have "length (vals n) = length rw \<Longrightarrow> (vals n = rw) = (\<forall>i<length (vals n). rw ! i = vals n ! i)"
    by (metis nth_equalityI)
  ultimately show ?thesis
    unfolding equalRow_def by (cases "length (vals n) = length rw") auto
qed


subsection \<open>Interning\<close>


lemma Fields_frame:
  "configs (snd (Fields s)) = configs s" "nextRef (snd (Fields s)) = nextRef s"
  "sid (snd (Fields s)) = sid s" "nFields (snd (Fields s)) = nFields s" "row (snd (Fields s)) = row s"
  by (auto simp: Fields_def Let_def split: option.splits)

lemma nodes_iff: "n \<in> nodes s \<longleftrightarrow> (\<exists>h. n \<in> set (configs s h))"
  by (auto simp: nodes_def)

lemma internRow_hit:
  assumes "find (\<lambda>config. equalRow config (trimRow (row s))) (configs s (hsh (concat (trimRow (row s))))) = Some n"
  shows "internRow hsh s = (Some n, s)"
  using assms by (simp add: internRow_def Let_def)

lemma internRow_cases:
  assumes inv: "tableInv hsh s" and ir: "internRow hsh s = (c, s')"
  shows "\<exists>n. c = Some n \<and> n \<in> nodes s' \<and> vals n = trimRow (row s) \<and> tableInv hsh s'
          \<and> nodes s \<subseteq> nodes s' \<and> nFields s' = nFields s \<and> sid s' = sid s"
proof (cases "find (\<lambda>config. equalRow config (trimRow (row s))) (configs s (hsh (concat (trimRow (row s)))))")
  case (Some n)
  then have "internRow hsh s = (Some n, s)" by (rule internRow_hit)
  with ir have c: "c = Some n" "s' = s" by auto
  from Some have "n \<in> set (configs s (hsh (concat (trimRow (row s)))))" "equalRow n (trimRow (row s))"
    by (auto simp: find_Some_iff)
  then show ?thesis using c inv by (auto simp: nodes_iff equalRow_iff)
next
  case None
  define rw where "rw = trimRow (row s)"
  define h where "h = hsh (concat rw)"
  define n where "n = \<lparr>ref = nextRef s, nschema = Some (sid s), vals = rw\<rparr>"
  from None ir have c: "c = Some n"
    and cf: "configs s' = (configs s)(h := configs s h @ [n])"
    and nr: "nextRef s' = nextRef s + 1" and nf: "nFields s' = nFields s" and sd: "sid s' = sid s"
    and rws: "row s' = row s"
    by (auto simp: internRow_def Let_def Fields_frame n_def h_def rw_def)
  have fresh: "\<forall>m \<in> nodes s. vals m \<noteq> rw"
  proof
    fix m assume m: "m \<in> nodes s"
    show "vals m \<noteq> rw"
    proof
      assume e: "vals m = rw"
      from m obtain h' where h': "m \<in> set (configs s h')" by (auto simp: nodes_iff)
      with inv have "hsh (concat (vals m)) = h'" by (auto simp: tableInv_def)
      with e have "h' = h" by (simp add: h_def)
      with h' e have "\<exists>x \<in> set (configs s h). equalRow x rw" by (auto simp: equalRow_iff)
      with None show False by (auto simp: find_None_iff h_def rw_def)
    qed
  qed
  have ns: "nodes s' = insert n (nodes s)"
    using cf by (auto simp: nodes_def split: if_splits)
  have refs: "\<forall>m \<in> nodes s. ref m < nextRef s" using inv by (auto simp: tableInv_def nodes_iff)
  have lenrw: "length rw \<le> nFields s" using inv trimRow_length [of "row s"] by (simp add: tableInv_def rw_def)
  have 1: "\<forall>h'. \<forall>m \<in> set (configs s' h').
        hsh (concat (vals m)) = h' \<and> ref m < nextRef s' \<and> nschema m = Some (sid s')
        \<and> length (vals m) \<le> nFields s' \<and> trimRow (vals m) = vals m"
    using inv lenrw by (auto simp: cf nr nf sd tableInv_def n_def h_def rw_def trimRow_idem less_Suc_eq split: if_splits)
  have 2: "\<forall>a \<in> nodes s'. \<forall>b \<in> nodes s'. ref a = ref b \<or> vals a = vals b \<longrightarrow> a = b"
  proof (intro ballI impI)
    fix a b assume a: "a \<in> nodes s'" and b: "b \<in> nodes s'" and e: "ref a = ref b \<or> vals a = vals b"
    consider "a = n" "b = n" | "a = n" "b \<in> nodes s" | "a \<in> nodes s" "b = n" | "a \<in> nodes s" "b \<in> nodes s"
      using a b ns by auto
    then show "a = b"
    proof cases
      case 1 then show ?thesis by simp
    next
      case 2 then show ?thesis using e fresh refs by (auto simp: n_def)
    next
      case 3 then show ?thesis using e fresh refs by (auto simp: n_def)
    next
      case 4 then show ?thesis using e inv by (auto simp: tableInv_def)
    qed
  qed
  have "tableInv hsh s'" using 1 2 inv by (simp add: tableInv_def rws nf)
  then show ?thesis using c ns nf sd by (auto simp: n_def rw_def)
qed



lemma grows_refl: "grows s s" by (simp add: grows_def)

lemma grows_trans: "grows a b \<Longrightarrow> grows b c \<Longrightarrow> grows a c"
  by (auto simp: grows_def)

lemma grows_setRow: "setRow s i v = Inr s' \<Longrightarrow> grows s s'"
  by (auto simp: setRow_def grows_def split: if_splits)

lemma grows_addField: "addField s g name = Inr (f, s') \<Longrightarrow> grows s s'"
  by (auto simp: addField_def grows_def Let_def split: option.splits if_splits)

lemma grows_initField: "grows s (initField k f s)"
  by (simp add: initField_def grows_def)

lemma grows_row_update: "length rw = length (row s) \<Longrightarrow> grows s (s\<lparr>row := rw\<rparr>)"
  by (simp add: grows_def)

lemma grows_project_update: "grows s (s\<lparr>project := fs\<rparr>)"
  by (simp add: grows_def)

lemma grows_configLoop:
  "configLoop ck g k cfgs seen s = Inr (seen', s') \<Longrightarrow> grows s s'"
proof (induction cfgs arbitrary: seen s)
  case Nil
  then show ?case by (simp add: grows_refl)
next
  case (Cons cfg rest)
  show ?case
  proof (cases "map_of seen (fst cfg)")
    case (Some fld)
    with Cons.prems obtain s1 where s1: "setRow s (idx fld) (snd cfg) = Inr s1"
      and r: "configLoop ck g k rest seen s1 = Inr (seen', s')"
      by (auto split: sum.splits)
    from grows_setRow [OF s1] Cons.IH [OF r] show ?thesis by (rule grows_trans)
  next
    case None
    show ?thesis
    proof (cases "fst cfg \<in> set ck")
      case True
      with None Cons.prems have "configLoop ck g k rest seen s = Inr (seen', s')" by simp
      then show ?thesis by (rule Cons.IH)
    next
      case False
      with None Cons.prems obtain fld s1 s2 where a: "addField s g (fst cfg) = Inr (fld, s1)"
        and b: "setRow (initField k fld s1) (idx fld) (snd cfg) = Inr s2"
        and r: "configLoop ck g k rest ((fst cfg, initLeaf k fld) # seen) s2 = Inr (seen', s')"
        by (auto split: sum.splits)
      have "grows s s2"
        using grows_addField [OF a] grows_initField [of s1 k fld] grows_setRow [OF b]
        by (blast intro: grows_trans)
      then show ?thesis using Cons.IH [OF r] by (rule grows_trans)
    qed
  qed
qed

lemma grows_runProj: "runProj f r p s = Inr (f', p', s') \<Longrightarrow> grows s s'"
proof (cases f)
  case (ProjConfig g k seen)
  assume "runProj f r p s = Inr (f', p', s')"
  with ProjConfig show ?thesis by (auto split: sum.splits dest: grows_configLoop)
next
  case (ProjFullname fld)
  assume "runProj f r p s = Inr (f', p', s')"
  with ProjFullname show ?thesis by (auto simp: Let_def split: sum.splits if_splits dest: grows_setRow)
next
  case (ProjKey ext fld)
  assume "runProj f r p s = Inr (f', p', s')"
  with ProjKey show ?thesis by (auto split: sum.splits dest: grows_setRow)
qed

lemma grows_projectLoop: "projectLoop dn todo r p s = Inr (p', s') \<Longrightarrow> grows s s'"
proof (induction todo arbitrary: dn p s)
  case Nil
  then show ?case by (auto simp: grows_project_update)
next
  case (Cons f todo)
  from Cons.prems obtain f1 p1 s1 where a: "runProj f r p s = Inr (f1, p1, s1)"
    and b: "projectLoop (dn @ [f1]) todo r p1 s1 = Inr (p', s')"
    by (auto split: sum.splits)
  from grows_runProj [OF a] Cons.IH [OF b] show ?case by (rule grows_trans)
qed

lemma grows_populateRow: "populateRow r p s = Inr (p', s') \<Longrightarrow> grows s s'"
  unfolding populateRow_def
  by (drule grows_projectLoop) (auto simp: grows_def)

lemma grows_tableInv: "tableInv hsh s \<Longrightarrow> grows s s' \<Longrightarrow> tableInv hsh s'"
  unfolding tableInv_def grows_def nodes_def by (auto intro: order_trans)

lemma grows_nodes: "grows s s' \<Longrightarrow> nodes s' = nodes s"
  by (simp add: grows_def nodes_def)

lemma Project_inv:
  assumes inv: "tableInv hsh s" and pr: "Project hsh r p s = Inr (c, p', s')"
  shows "\<exists>n. c = Some n \<and> n \<in> nodes s' \<and> vals n = tupleOf r p s \<and> tableInv hsh s'
          \<and> nodes s \<subseteq> nodes s' \<and> sid s' = sid s \<and> nFields s \<le> nFields s'"
proof -
  from pr obtain p1 s1 where a: "populateRow r p s = Inr (p1, s1)" and b: "internRow hsh s1 = (c, s')"
    and pp: "p' = p1"
    by (auto simp: Project_def split: sum.splits prod.splits)
  have g: "grows s s1" using a by (rule grows_populateRow)
  have inv1: "tableInv hsh s1" using inv g by (rule grows_tableInv)
  from internRow_cases [OF inv1 b] obtain n where "c = Some n" "n \<in> nodes s'" "vals n = trimRow (row s1)"
    "tableInv hsh s'" "nodes s1 \<subseteq> nodes s'" "nFields s' = nFields s1" "sid s' = sid s1" by blast
  then show ?thesis using a g grows_nodes [OF g] by (auto simp: tupleOf_def grows_def)
qed

lemma projected_inv:
  "projected hsh s s' \<Longrightarrow> tableInv hsh s \<Longrightarrow> tableInv hsh s' \<and> nodes s \<subseteq> nodes s' \<and> sid s' = sid s \<and> nFields s \<le> nFields s'"
proof (induction rule: projected.induct)
  case (projected_refl s)
  then show ?case by simp
next
  case (projected_step s s1 r p c p2 s2)
  then have i: "tableInv hsh s1" and n: "nodes s \<subseteq> nodes s1" and sd: "sid s1 = sid s" and nf: "nFields s \<le> nFields s1" by auto
  from Project_inv [OF i projected_step.hyps(2)] n sd nf show ?case by auto
qed

text \<open>
  C1. Projecting a result interns the trimmed tuple of its values. Two Configs
  that one Schema returns, for any two results and with any number of other
  projections in between, are the same node (equal pointers, equal Configs) if the
  two trimmed tuples are equal, and different nodes if the tuples differ. Trimmed
  tuples are equal exactly when the rows agree at every position, a position past
  the end of a row counting as the empty string.
\<close>

theorem Project_interns:
  assumes inv: "tableInv hsh s"
    and p1: "Project hsh r1 p1 s = Inr (c1, p1', sa)"
    and mid: "projected hsh sa sb"
    and p2: "Project hsh r2 p2 sb = Inr (c2, p2', sc)"
  shows "\<exists>n1 n2. c1 = Some n1 \<and> c2 = Some n2
           \<and> vals n1 = tupleOf r1 p1 s \<and> vals n2 = tupleOf r2 p2 sb
           \<and> (ref n1 = ref n2 \<longleftrightarrow> tupleOf r1 p1 s = tupleOf r2 p2 sb)
           \<and> (c1 = c2 \<longleftrightarrow> tupleOf r1 p1 s = tupleOf r2 p2 sb)
           \<and> (\<forall>a b. trimRow a = trimRow b \<longleftrightarrow> (\<forall>i\<ge>0. valAt a i = valAt b i))"
proof -
  from Project_inv [OF inv p1] obtain n1 where n1: "c1 = Some n1" "n1 \<in> nodes sa" "vals n1 = tupleOf r1 p1 s"
    and ia: "tableInv hsh sa" by blast
  from projected_inv [OF mid ia] have ib: "tableInv hsh sb" and sub: "nodes sa \<subseteq> nodes sb" by auto
  from Project_inv [OF ib p2] obtain n2 where n2: "c2 = Some n2" "n2 \<in> nodes sc" "vals n2 = tupleOf r2 p2 sb"
    and ic: "tableInv hsh sc" and sub2: "nodes sb \<subseteq> nodes sc" by blast
  have in1: "n1 \<in> nodes sc" using n1 sub sub2 by auto
  have u: "ref n1 = ref n2 \<or> vals n1 = vals n2 \<longrightarrow> n1 = n2"
    using ic in1 n2(2) unfolding tableInv_def by blast
  show ?thesis using n1 n2 u trimRow_eq_iff by auto
qed




lemma tableInv_newSchema: "tableInv hsh (newSchema p)"
  by (simp add: tableInv_def newSchema_def nodes_def)

lemma grows_addGroup: "addGroup s g name = Inr (g', s') \<Longrightarrow> grows s s'"
  by (auto simp: addGroup_def grows_def Let_def split: option.splits)

lemma grows_makeProjection:
  "makeProjection p s q proj = Inr (p', Inr (f, s')) \<Longrightarrow> grows s s'"
  unfolding makeProjection_def Let_def
  by (auto split: option.splits if_splits sum.splits prod.splits
      dest!: grows_addGroup grows_addField simp: grows_def initField_def)

lemma grows_parseLoop:
  "parseLoop p s q parts fs = Inr (p', Inr (s', fs')) \<Longrightarrow> grows s s'"
proof (induction parts arbitrary: p s fs)
  case Nil
  then show ?case by (simp add: grows_refl)
next
  case (Cons part parts)
  from Cons.prems obtain p1 f s1 where a: "makeProjection p s q part = Inr (p1, Inr (f, s1))"
    and b: "parseLoop p1 s1 q parts (case f of None \<Rightarrow> fs | Some g \<Rightarrow> fs @ [g]) = Inr (p', Inr (s', fs'))"
    by (auto split: sum.splits prod.splits)
  from grows_makeProjection [OF a] Cons.IH [OF b] show ?case by (rule grows_trans)
qed

lemma ex_inv: "tableInv exHash exSchema"
proof -
  have "\<not> isl (parseLoop newProjectionParser (newSchema 1) ''a,.config@alpha'' exParts [])
       \<and> \<not> isl (snd (projr (parseLoop newProjectionParser (newSchema 1) ''a,.config@alpha'' exParts [])))"
    by code_simp
  then obtain p s fs where e: "parseLoop newProjectionParser (newSchema 1) ''a,.config@alpha'' exParts [] = Inr (p, Inr (s, fs))"
    by (cases "parseLoop newProjectionParser (newSchema 1) ''a,.config@alpha'' exParts []";
        cases "snd (projr (parseLoop newProjectionParser (newSchema 1) ''a,.config@alpha'' exParts []))")
       auto
  then have "exSchema = s" by (simp add: exSchema_def)
  with grows_parseLoop [OF e] tableInv_newSchema show ?thesis by (auto intro: grows_tableInv)
qed

lemma ex_eval: "case Project exHash exR1 exParser exSchema of Inl e \<Rightarrow> False
   | Inr (c1, pa, sa) \<Rightarrow> (case Project exHash exR2 pa sa of Inl e \<Rightarrow> False
       | Inr (c2, pb, sb) \<Rightarrow> tupleOf exR1 exParser exSchema = tupleOf exR2 pa sa \<and>
          (case Project exHash exR3 pb sb of Inl e \<Rightarrow> False
       | Inr (c3, pc, sc) \<Rightarrow> tupleOf exR1 exParser exSchema \<noteq> tupleOf exR3 pb sb))"
  by code_simp


lemma case_InrE:
  assumes "case x of Inl e \<Rightarrow> False | Inr (a, b, c) \<Rightarrow> P a b c"
  obtains a b c where "x = Inr (a, b, c)" "P a b c"
  using assms by (cases x) auto

theorem Project_interns_witness:
  "tableInv exHash exSchema \<and>
   (\<exists>c1 pa sa c2 pb sb c3 pc sc.
      Project exHash exR1 exParser exSchema = Inr (c1, pa, sa) \<and> projected exHash sa sa \<and>
      Project exHash exR2 pa sa = Inr (c2, pb, sb) \<and> projected exHash sa sb \<and>
      Project exHash exR3 pb sb = Inr (c3, pc, sc) \<and> c1 = c2 \<and> c1 \<noteq> c3)"
proof -
  from ex_eval obtain c1 pa sa where
    a: "Project exHash exR1 exParser exSchema = Inr (c1, pa, sa)" and
    r1: "case Project exHash exR2 pa sa of Inl e \<Rightarrow> False
       | Inr (c2, pb, sb) \<Rightarrow> tupleOf exR1 exParser exSchema = tupleOf exR2 pa sa \<and>
          (case Project exHash exR3 pb sb of Inl e \<Rightarrow> False
       | Inr (c3, pc, sc) \<Rightarrow> tupleOf exR1 exParser exSchema \<noteq> tupleOf exR3 pb sb)"
    by (rule case_InrE)
  from r1 obtain c2 pb sb where
    b: "Project exHash exR2 pa sa = Inr (c2, pb, sb)" and
    r2: "tupleOf exR1 exParser exSchema = tupleOf exR2 pa sa \<and>
          (case Project exHash exR3 pb sb of Inl e \<Rightarrow> False
       | Inr (c3, pc, sc) \<Rightarrow> tupleOf exR1 exParser exSchema \<noteq> tupleOf exR3 pb sb)"
    by (rule case_InrE)
  from r2 have t12: "tupleOf exR1 exParser exSchema = tupleOf exR2 pa sa" and
    r3: "case Project exHash exR3 pb sb of Inl e \<Rightarrow> False
       | Inr (c3, pc, sc) \<Rightarrow> tupleOf exR1 exParser exSchema \<noteq> tupleOf exR3 pb sb" by auto
  from r3 obtain c3 pc sc where
    c: "Project exHash exR3 pb sb = Inr (c3, pc, sc)" and
    t13: "tupleOf exR1 exParser exSchema \<noteq> tupleOf exR3 pb sb"
    by (rule case_InrE)
  have m: "projected exHash sa sb" using projected_refl b by (rule projected_step)
  from Project_interns [OF ex_inv a projected_refl b] t12 have "c1 = c2" by auto
  moreover from Project_interns [OF ex_inv a m c] t13 have "c1 \<noteq> c3" by auto
  ultimately show ?thesis using ex_inv a b c m projected_refl by blast
qed

subsection \<open>Growing a schema\<close>


lemma map_zip_update:
  "i < length sb \<Longrightarrow> map (\<lambda>(k, g). if k = i then F g else g) (zip [0..<length sb] sb) = sb[i := F (sb ! i)]"
  by (rule nth_equalityI) (auto simp: nth_list_update)

lemma map_zip_same:
  "\<not> i < length sb \<Longrightarrow> map (\<lambda>(k, g). if k = i then F g else g) (zip [0..<length sb] sb) = sb"
  by (rule nth_equalityI) auto

lemma walk_leaf: "idx f \<noteq> -1 \<Longrightarrow> walk f = [f]"
  by (cases f) simp

lemma walk_group: "idx f = -1 \<Longrightarrow> walk f = concat (map walk (sub f))"
  by (cases f) simp

lemma concat_map_update:
  "i < length sb \<Longrightarrow> concat (map w (sb[i := x])) = concat (map w (take i sb)) @ w x @ concat (map w (drop (Suc i) sb))"
  by (simp add: upd_conv_take_nth_drop)

lemma concat_map_nth:
  "i < length sb \<Longrightarrow> concat (map w sb) = concat (map w (take i sb)) @ w (sb ! i) @ concat (map w (drop (Suc i) sb))"
  using concat_map_update [of i sb w "sb ! i"] by simp

lemma walk_appendAt:
  assumes "treeOK rt" "nodeAt rt grp = Some g" "idx g = -1" "idx new \<noteq> -1"
  shows "\<exists>pre post. walk rt = pre @ post \<and> walk (appendAt rt grp new) = pre @ new # post"
  using assms
proof (induction grp arbitrary: rt)
  case Nil
  then have g: "rt = g" by simp
  obtain n sc ix sb c od where r: "rt = Field n sc ix sb c od" by (cases rt)
  with g Nil have ix: "ix = -1" by auto
  have "walk (appendAt rt [] new) = walk rt @ [new]"
    using r ix Nil.prems(4) by (simp add: walk_leaf)
  then show ?case by auto
next
  case (Cons i p)
  obtain n sc ix sb c od where r: "rt = Field n sc ix sb c od" by (cases rt)
  from Cons.prems(2) r have i: "i < length sb" and na: "nodeAt (sb ! i) p = Some g"
    by (auto split: if_splits)
  from i Cons.prems(1) r have ix: "ix = -1" by (auto split: if_splits)
  from i Cons.prems(1) r ix have ok: "treeOK (sb ! i)" by auto
  from Cons.IH [OF ok na Cons.prems(3) Cons.prems(4)] obtain pre post where
    w: "walk (sb ! i) = pre @ post" and w': "walk (appendAt (sb ! i) p new) = pre @ new # post" by blast
  have a: "appendAt rt (i # p) new = Field n sc ix (sb[i := appendAt (sb ! i) p new]) c od"
    using r i by (simp add: map_zip_update)
  have "walk rt = (concat (map walk (take i sb)) @ pre) @ (post @ concat (map walk (drop (Suc i) sb)))"
    using r ix concat_map_nth [OF i, of walk] w by simp
  moreover have "walk (appendAt rt (i # p) new) =
      (concat (map walk (take i sb)) @ pre) @ new # (post @ concat (map walk (drop (Suc i) sb)))"
    using a ix concat_map_update [OF i, of walk] w' by simp
  ultimately show ?case by blast
qed

lemma less_tuples_insert:
  assumes "valAt a (idx f) = valAt b (idx f)" "0 \<le> idx f"
  shows "less_tuples pf (pre @ f # post) a b = less_tuples pf (pre @ post) a b"
  using assms by (induction pre) (auto simp: Let_def)

lemma Fields_valid:
  "treeInv s \<Longrightarrow> fst (Fields s) = walk (sroot s)"
  by (auto simp: Fields_def treeInv_def Let_def split: option.splits)

lemma internRow_existing:
  assumes inv: "tableInv hsh s" and n: "n \<in> nodes s" and t: "trimRow (row s) = vals n"
  shows "internRow hsh s = (Some n, s)"
proof -
  from n obtain h where h: "n \<in> set (configs s h)" by (auto simp: nodes_iff)
  with inv have hh: "h = hsh (concat (trimRow (row s)))" by (auto simp: tableInv_def t)
  have ex: "\<exists>x \<in> set (configs s h). equalRow x (trimRow (row s))"
    using h t by (auto simp: equalRow_iff)
  then obtain m where f: "find (\<lambda>config. equalRow config (trimRow (row s))) (configs s h) = Some m"
    by (cases "find (\<lambda>config. equalRow config (trimRow (row s))) (configs s h)") (auto simp: find_None_iff)
  then have "m \<in> set (configs s h)" "equalRow m (trimRow (row s))" by (auto simp: find_Some_iff)
  then have "m \<in> nodes s" "vals m = vals n" using t by (auto simp: nodes_iff equalRow_iff)
  with inv n have "m = n" unfolding tableInv_def by blast
  with f hh show ?thesis by (auto intro: internRow_hit)
qed

lemma valAt_past: "int (length a) \<le> i \<Longrightarrow> valAt a i = []"
  by (simp add: valAt_def)

subsection \<open>Keeping the invariants of the tree\<close>


lemma treeInv_cong:
  "sroot s' = sroot s \<Longrightarrow> nFields s' = nFields s \<Longrightarrow> flatCache s' = flatCache s \<Longrightarrow> treeInv s' = treeInv s"
  by (simp add: treeInv_def cong: option.case_cong)

lemma treeInv_newSchema: "treeInv (newSchema p)"
  by (simp add: treeInv_def newSchema_def)

lemma idx_appendAt: "idx (appendAt rt grp new) = idx rt"
  by (cases rt; cases grp) auto

lemma walk_appendAt_gen:
  assumes "treeOK rt" "nodeAt rt grp = Some g" "idx g = -1"
  shows "\<exists>pre post. walk rt = pre @ post \<and> walk (appendAt rt grp new) = pre @ walk new @ post"
  using assms
proof (induction grp arbitrary: rt)
  case Nil
  then have g: "rt = g" by simp
  obtain n sc ix sb c od where r: "rt = Field n sc ix sb c od" by (cases rt)
  with g Nil have ix: "ix = -1" by auto
  have "walk (appendAt rt [] new) = walk rt @ walk new @ []"
    using r ix by simp
  then show ?case by blast
next
  case (Cons i p)
  obtain n sc ix sb c od where r: "rt = Field n sc ix sb c od" by (cases rt)
  from Cons.prems(2) r have i: "i < length sb" and na: "nodeAt (sb ! i) p = Some g"
    by (auto split: if_splits)
  from i Cons.prems(1) r have ix: "ix = -1" by (auto split: if_splits)
  from i Cons.prems(1) r ix have ok: "treeOK (sb ! i)" by auto
  from Cons.IH [OF ok na Cons.prems(3)] obtain pre post where
    w: "walk (sb ! i) = pre @ post" and w': "walk (appendAt (sb ! i) p new) = pre @ walk new @ post" by blast
  have a: "appendAt rt (i # p) new = Field n sc ix (sb[i := appendAt (sb ! i) p new]) c od"
    using r i by (simp add: map_zip_update)
  have "walk rt = (concat (map walk (take i sb)) @ pre) @ (post @ concat (map walk (drop (Suc i) sb)))"
    using r ix concat_map_nth [OF i, of walk] w by simp
  moreover have "walk (appendAt rt (i # p) new) =
      (concat (map walk (take i sb)) @ pre) @ walk new @ (post @ concat (map walk (drop (Suc i) sb)))"
    using a ix concat_map_update [OF i, of walk] w' by simp
  ultimately show ?case by blast
qed

lemma treeOK_appendAt:
  assumes "treeOK rt" "nodeAt rt grp = Some g" "idx g = -1" "treeOK new"
  shows "treeOK (appendAt rt grp new)"
  using assms
proof (induction grp arbitrary: rt)
  case Nil
  obtain n sc ix sb c od where r: "rt = Field n sc ix sb c od" by (cases rt)
  with Nil have ix: "ix = -1" by auto
  show ?case using r ix Nil by auto
next
  case (Cons i p)
  obtain n sc ix sb c od where r: "rt = Field n sc ix sb c od" by (cases rt)
  from Cons.prems(2) r have i: "i < length sb" and na: "nodeAt (sb ! i) p = Some g"
    by (auto split: if_splits)
  from i Cons.prems(1) r have ix: "ix = -1" by (auto split: if_splits)
  from i Cons.prems(1) r ix have ok: "treeOK (sb ! i)" and all: "\<forall>f \<in> set sb. treeOK f" by auto
  have a: "appendAt rt (i # p) new = Field n sc ix (sb[i := appendAt (sb ! i) p new]) c od"
    using r i by (simp add: map_zip_update)
  have "treeOK (appendAt (sb ! i) p new)" using Cons.IH [OF ok na Cons.prems(3,4)] .
  then have "\<forall>f \<in> set (sb[i := appendAt (sb ! i) p new]). treeOK f"
    using all by (auto dest!: set_update_subset_insert [THEN subsetD])
  then show ?case using a ix by simp
qed

lemma treeInv_addField:
  assumes tree: "treeInv s" and add: "addField s grp name = Inr (f, s')"
  shows "treeInv s'"
proof -
  from add obtain g where g: "nodeAt (sroot s) grp = Some g" "idx g = -1"
    and f: "f = Field name (Some (sid s)) (int (nFields s)) [] CmpNil None"
    and s': "s' = s\<lparr>nFields := nFields s + 1, sroot := appendAt (sroot s) grp f, row := row s @ [''''], flatCache := None\<rparr>"
    by (auto simp: addField_def Let_def split: option.splits if_splits)
  have ok: "treeOK (sroot s)" using tree by (simp add: treeInv_def)
  have okf: "treeOK f" using f by simp
  have wf: "walk f = [f]" using f by simp
  from walk_appendAt_gen [OF ok g, of f] obtain pre post where
    w: "walk (sroot s) = pre @ post" "walk (appendAt (sroot s) grp f) = pre @ f # post" using wf by auto
  have 1: "treeOK (sroot s')" using treeOK_appendAt [OF ok g okf] s' by simp
  have 2: "idx (sroot s') = -1" using tree s' by (simp add: idx_appendAt treeInv_def)
  have old: "\<forall>x \<in> set (pre @ post). idx x < int (nFields s)"
    using tree w by (simp add: treeInv_def)
  have 3: "\<forall>x \<in> set (walk (sroot s')). idx x < int (nFields s')"
  proof
    fix x assume "x \<in> set (walk (sroot s'))"
    then have "x = f \<or> x \<in> set (pre @ post)" using w s' by auto
    then show "idx x < int (nFields s')" using old f s' by fastforce
  qed
  show ?thesis using 1 2 3 s' by (simp add: treeInv_def)
qed

lemma treeInv_addGroup:
  assumes tree: "treeInv s" and add: "addGroup s [] name = Inr (g', s')"
  shows "treeInv s'"
proof -
  let ?new = "Field name (Some (sid s)) (-1) [] CmpNil None"
  from add have s': "s' = s\<lparr>sroot := appendAt (sroot s) [] ?new\<rparr>"
    by (auto simp: addGroup_def Let_def)
  have ok: "treeOK (sroot s)" and ir: "idx (sroot s) = -1" using tree by (simp_all add: treeInv_def)
  have g: "nodeAt (sroot s) [] = Some (sroot s)" by simp
  from walk_appendAt_gen [OF ok g ir, of ?new] have w: "walk (appendAt (sroot s) [] ?new) = walk (sroot s)"
    by auto
  have 1: "treeOK (sroot s')" using treeOK_appendAt [OF ok g ir, of ?new] s' by simp
  have 2: "walk (sroot s') = walk (sroot s)" "idx (sroot s') = -1" "nFields s' = nFields s"
    "flatCache s' = flatCache s"
    using w ir s' by (simp_all add: idx_appendAt)
  show ?thesis using tree 1 unfolding treeInv_def 2 by simp
qed

lemma initLeaf_sel [simp]: "idx (initLeaf k f) = idx f" "sub (initLeaf k f) = sub f"
  "Name (initLeaf k f) = Name f" "fschema (initLeaf k f) = fschema f"
  by (simp_all add: initLeaf_def)

lemma treeOK_initLeaf: "treeOK f \<Longrightarrow> treeOK (initLeaf k f)"
  by (cases f) (auto simp: initLeaf_def)

lemma initTree_props:
  "treeOK rt \<Longrightarrow> treeOK (initTree k i rt) \<and> idx (initTree k i rt) = idx rt
     \<and> walk (initTree k i rt) = map (\<lambda>f. if idx f = i then initLeaf k f else f) (walk rt)"
proof (induction rt rule: walk.induct)
  case (1 n sc ix sb c od)
  show ?case
  proof (cases "ix = -1")
    case True
    from 1 True have ih: "\<forall>x \<in> set sb. treeOK (initTree k i x) \<and> idx (initTree k i x) = idx x
       \<and> walk (initTree k i x) = map (\<lambda>f. if idx f = i then initLeaf k f else f) (walk x)"
      by auto
    have "concat (map (walk \<circ> initTree k i) sb) = map (\<lambda>f. if idx f = i then initLeaf k f else f) (concat (map walk sb))"
      using ih by (induction sb) auto
    then show ?thesis using True ih by (simp add: comp_def)
  next
    case False
    then show ?thesis using 1(2) by (auto simp: initLeaf_def)
  qed
qed

lemma treeInv_initField: "treeInv s \<Longrightarrow> treeInv (initField k fld s)"
  using initTree_props [of "sroot s" k "idx fld"]
  by (auto simp: treeInv_def initField_def split: option.splits)

lemma observe_sel [simp]: "idx (observe rw f) = idx f" "sub (observe rw f) = sub f"
  by (auto simp: observe_def Let_def split: option.splits)

lemma observeTree_props:
  "treeOK rt \<Longrightarrow> treeOK (observeTree rw rt) \<and> idx (observeTree rw rt) = idx rt
     \<and> walk (observeTree rw rt) = map (observe rw) (walk rt)"
proof (induction rt rule: walk.induct)
  case (1 n sc ix sb c od)
  show ?case
  proof (cases "ix = -1")
    case True
    from 1 True have ih: "\<forall>x \<in> set sb. treeOK (observeTree rw x) \<and> idx (observeTree rw x) = idx x
       \<and> walk (observeTree rw x) = map (observe rw) (walk x)"
      by auto
    have "concat (map (walk \<circ> observeTree rw) sb) = map (observe rw) (concat (map walk sb))"
      using ih by (induction sb) auto
    then show ?thesis using True ih by (simp add: comp_def)
  next
    case False
    let ?f = "Field n sc ix sb c od"
    obtain n' sc' ix' sb' c' od' where e: "observe rw ?f = Field n' sc' ix' sb' c' od'"
      by (cases "observe rw ?f")
    have "idx (observe rw ?f) = ix" "sub (observe rw ?f) = sb" by simp_all
    then have o: "ix' = ix" "sb' = sb" unfolding e by simp_all
    have "treeOK (observe rw ?f)" using 1(2) False unfolding e o by simp
    moreover have "walk (observe rw ?f) = [observe rw ?f]" using False unfolding e o by simp
    ultimately show ?thesis using False by simp
  qed
qed

lemma treeInv_Fields: "treeInv s \<Longrightarrow> treeInv (snd (Fields s)) \<and> flatCache (snd (Fields s)) = Some (walk (sroot s))
    \<and> sroot (snd (Fields s)) = sroot s"
  by (auto simp: Fields_def treeInv_def Let_def split: option.splits)

lemma internRow_miss:
  assumes "find (\<lambda>config. equalRow config (trimRow (row s))) (configs s (hsh (concat (trimRow (row s))))) = None"
    and "internRow hsh s = (c, s')"
  shows "sroot s' = observeTree (trimRow (row s)) (sroot (snd (Fields s)))"
    and "flatCache s' = map_option (map (observe (trimRow (row s)))) (flatCache (snd (Fields s)))"
    and "nFields s' = nFields (snd (Fields s))"
proof -
  define s1 where "s1 = snd (Fields s)"
  define rw where "rw = trimRow (row s)"
  define s2 where "s2 = s1\<lparr>sroot := observeTree rw (sroot s1),
                          flatCache := map_option (map (observe rw)) (flatCache s1)\<rparr>"
  define config where "config = \<lparr>ref = nextRef s2, nschema = Some (sid s2), vals = rw\<rparr>"
  have "internRow hsh s = (Some config,
                  s2\<lparr>configs := (configs s2)(hsh (concat rw) := configs s2 (hsh (concat rw)) @ [config]),
                     nextRef := nextRef s2 + 1\<rparr>)"
    using assms(1) unfolding internRow_def Let_def config_def s2_def s1_def rw_def by simp
  with assms(2) have s': "s' = s2\<lparr>configs := (configs s2)(hsh (concat rw) := configs s2 (hsh (concat rw)) @ [config]),
                     nextRef := nextRef s2 + 1\<rparr>" by simp
  show "sroot s' = observeTree (trimRow (row s)) (sroot (snd (Fields s)))"
    unfolding s' by (simp add: s2_def s1_def rw_def)
  show "flatCache s' = map_option (map (observe (trimRow (row s)))) (flatCache (snd (Fields s)))"
    unfolding s' by (simp add: s2_def s1_def rw_def)
  show "nFields s' = nFields (snd (Fields s))"
    unfolding s' by (simp add: s2_def s1_def)
qed

lemma treeInv_internRow:
  assumes "treeInv s" "internRow hsh s = (c, s')"
  shows "treeInv s'"
proof (cases "find (\<lambda>config. equalRow config (trimRow (row s))) (configs s (hsh (concat (trimRow (row s)))))")
  case (Some n)
  then have "internRow hsh s = (Some n, s)" by (rule internRow_hit)
  with assms show ?thesis by simp
next
  case None
  let ?rw = "trimRow (row s)"
  from treeInv_Fields [OF assms(1)] have fc: "flatCache (snd (Fields s)) = Some (walk (sroot s))"
    and rt: "sroot (snd (Fields s)) = sroot s" by auto
  have r: "sroot s' = observeTree ?rw (sroot s)"
    using internRow_miss(1) [OF None assms(2)] rt by simp
  have c: "flatCache s' = Some (map (observe ?rw) (walk (sroot s)))"
    using internRow_miss(2) [OF None assms(2)] fc by simp
  have n: "nFields s' = nFields s"
    using internRow_miss(3) [OF None assms(2)] by (simp add: Fields_frame)
  have ok: "treeOK (sroot s)" and ir: "idx (sroot s) = -1"
    and lt: "\<forall>f \<in> set (walk (sroot s)). idx f < int (nFields s)"
    using assms(1) by (simp_all add: treeInv_def)
  from observeTree_props [OF ok, of ?rw] have o: "treeOK (observeTree ?rw (sroot s))"
    "idx (observeTree ?rw (sroot s)) = idx (sroot s)"
    "walk (observeTree ?rw (sroot s)) = map (observe ?rw) (walk (sroot s))" by auto
  show ?thesis unfolding treeInv_def r c n o using o(1) ir lt by simp
qed

lemma treeInv_row_update: "treeInv s \<Longrightarrow> treeInv (s\<lparr>row := rw\<rparr>)"
  using treeInv_cong [of "s\<lparr>row := rw\<rparr>" s] by simp

lemma treeInv_project_update: "treeInv s \<Longrightarrow> treeInv (s\<lparr>project := fs\<rparr>)"
  using treeInv_cong [of "s\<lparr>project := fs\<rparr>" s] by simp

lemma treeInv_setRow: "treeInv s \<Longrightarrow> setRow s i v = Inr s' \<Longrightarrow> treeInv s'"
  by (auto simp: setRow_def split: if_splits intro: treeInv_row_update)



lemma indexInv_cong:
  "map idx (walk (sroot s')) = map idx (walk (sroot s)) \<Longrightarrow> nFields s' = nFields s \<Longrightarrow> indexInv s' = indexInv s"
  by (simp add: indexInv_def)

lemma indexInv_newSchema: "indexInv (newSchema p)"
  by (simp add: indexInv_def newSchema_def)

lemma indexInv_covered: "indexInv s \<Longrightarrow> covered s"
  unfolding indexInv_def covered_def by (metis (no_types, lifting) image_iff list.set_map)

lemma indexInv_addField:
  assumes tree: "treeInv s" and ix: "indexInv s" and add: "addField s grp name = Inr (f, s')"
  shows "indexInv s'"
proof -
  from add obtain g where g: "nodeAt (sroot s) grp = Some g" "idx g = -1"
    and f: "f = Field name (Some (sid s)) (int (nFields s)) [] CmpNil None"
    and s': "s' = s\<lparr>nFields := nFields s + 1, sroot := appendAt (sroot s) grp f, row := row s @ [''''], flatCache := None\<rparr>"
    by (auto simp: addField_def Let_def split: option.splits if_splits)
  have ok: "treeOK (sroot s)" using tree by (simp add: treeInv_def)
  have wf: "walk f = [f]" using f by simp
  from walk_appendAt_gen [OF ok g, of f] obtain pre post where
    w: "walk (sroot s) = pre @ post" "walk (sroot s') = pre @ f # post" using wf s' by auto
  have d: "distinct (map idx (pre @ post))" and st: "set (map idx (pre @ post)) = int ` {0..<nFields s}"
    using ix w by (simp_all add: indexInv_def)
  have nf: "idx f = int (nFields s)" "nFields s' = Suc (nFields s)" using f s' by simp_all
  have fresh: "idx f \<notin> set (map idx (pre @ post))" unfolding st nf by auto
  have 1: "distinct (map idx (pre @ f # post))" using d fresh by auto
  have "set (map idx (pre @ f # post)) = insert (idx f) (set (map idx (pre @ post)))" by auto
  also have "\<dots> = int ` {0..<Suc (nFields s)}" unfolding st nf by (auto simp: less_Suc_eq)
  finally show ?thesis using 1 unfolding indexInv_def w nf by simp
qed

lemma indexInv_addGroup:
  assumes tree: "treeInv s" and ix: "indexInv s" and add: "addGroup s [] name = Inr (g', s')"
  shows "indexInv s'"
proof -
  let ?new = "Field name (Some (sid s)) (-1) [] CmpNil None"
  from add have s': "s' = s\<lparr>sroot := appendAt (sroot s) [] ?new\<rparr>"
    by (auto simp: addGroup_def Let_def)
  have ok: "treeOK (sroot s)" and ir: "idx (sroot s) = -1" using tree by (simp_all add: treeInv_def)
  have g: "nodeAt (sroot s) [] = Some (sroot s)" by simp
  from walk_appendAt_gen [OF ok g ir, of ?new] have "walk (appendAt (sroot s) [] ?new) = walk (sroot s)"
    by auto
  then have "map idx (walk (sroot s')) = map idx (walk (sroot s))" "nFields s' = nFields s"
    using s' by simp_all
  from indexInv_cong [OF this] ix show ?thesis by simp
qed

lemma indexInv_initField:
  assumes tree: "treeInv s" and ix: "indexInv s"
  shows "indexInv (initField k fld s)"
proof -
  have ok: "treeOK (sroot s)" using tree by (simp add: treeInv_def)
  from initTree_props [OF ok, of k "idx fld"]
  have "walk (initTree k (idx fld) (sroot s)) = map (\<lambda>f. if idx f = idx fld then initLeaf k f else f) (walk (sroot s))"
    by simp
  then have "map idx (walk (sroot (initField k fld s))) = map idx (walk (sroot s))"
    by (simp add: initField_def comp_def)
  moreover have "nFields (initField k fld s) = nFields s" by (simp add: initField_def)
  ultimately show ?thesis using indexInv_cong ix by blast
qed

lemma indexInv_internRow:
  assumes tree: "treeInv s" and ix: "indexInv s" and ir: "internRow hsh s = (c, s')"
  shows "indexInv s'"
proof (cases "find (\<lambda>config. equalRow config (trimRow (row s))) (configs s (hsh (concat (trimRow (row s)))))")
  case (Some n)
  then have "internRow hsh s = (Some n, s)" by (rule internRow_hit)
  with ir ix show ?thesis by simp
next
  case None
  let ?rw = "trimRow (row s)"
  from treeInv_Fields [OF tree] have rt: "sroot (snd (Fields s)) = sroot s" by auto
  have r: "sroot s' = observeTree ?rw (sroot s)"
    using internRow_miss(1) [OF None ir] rt by simp
  have n: "nFields s' = nFields s"
    using internRow_miss(3) [OF None ir] by (simp add: Fields_frame)
  have ok: "treeOK (sroot s)" using tree by (simp add: treeInv_def)
  from observeTree_props [OF ok, of ?rw]
  have "map idx (walk (sroot s')) = map idx (walk (sroot s))" unfolding r by (simp add: comp_def)
  from indexInv_cong [OF this n] ix show ?thesis by simp
qed

lemma schemaInv_newSchema: "schemaInv (newSchema p)"
  by (simp add: schemaInv_def treeInv_newSchema indexInv_newSchema)

lemma schemaInv_addField: "schemaInv s \<Longrightarrow> addField s grp name = Inr (f, s') \<Longrightarrow> schemaInv s'"
  by (auto simp: schemaInv_def intro: treeInv_addField indexInv_addField)

lemma schemaInv_addGroup: "schemaInv s \<Longrightarrow> addGroup s [] name = Inr (g', s') \<Longrightarrow> schemaInv s'"
  by (auto simp: schemaInv_def intro: treeInv_addGroup indexInv_addGroup)

lemma schemaInv_initField: "schemaInv s \<Longrightarrow> schemaInv (initField k fld s)"
  by (auto simp: schemaInv_def intro: treeInv_initField indexInv_initField)

lemma schemaInv_internRow: "schemaInv s \<Longrightarrow> internRow hsh s = (c, s') \<Longrightarrow> schemaInv s'"
  by (auto simp: schemaInv_def intro: treeInv_internRow indexInv_internRow)

lemma schemaInv_row_update: "schemaInv s \<Longrightarrow> schemaInv (s\<lparr>row := rw\<rparr>)"
  using indexInv_cong [of "s\<lparr>row := rw\<rparr>" s] by (simp add: schemaInv_def treeInv_row_update)

lemma schemaInv_project_update: "schemaInv s \<Longrightarrow> schemaInv (s\<lparr>project := fs\<rparr>)"
  using indexInv_cong [of "s\<lparr>project := fs\<rparr>" s] by (simp add: schemaInv_def treeInv_project_update)

lemma schemaInv_setRow: "schemaInv s \<Longrightarrow> setRow s i v = Inr s' \<Longrightarrow> schemaInv s'"
  by (auto simp: setRow_def split: if_splits intro: schemaInv_row_update)

lemma schemaInv_configLoop:
  "schemaInv s \<Longrightarrow> configLoop ck g k cfgs seen s = Inr (seen', s') \<Longrightarrow> schemaInv s'"
proof (induction cfgs arbitrary: seen s)
  case Nil
  then show ?case by simp
next
  case (Cons cfg rest)
  show ?case
  proof (cases "map_of seen (fst cfg)")
    case (Some fld)
    with Cons.prems obtain s1 where s1: "setRow s (idx fld) (snd cfg) = Inr s1"
      and r: "configLoop ck g k rest seen s1 = Inr (seen', s')"
      by (auto split: sum.splits)
    from schemaInv_setRow [OF Cons.prems(1) s1] r show ?thesis by (rule Cons.IH)
  next
    case None
    show ?thesis
    proof (cases "fst cfg \<in> set ck")
      case True
      with None Cons.prems have "configLoop ck g k rest seen s = Inr (seen', s')" by simp
      with Cons.prems(1) show ?thesis by (rule Cons.IH)
    next
      case False
      with None Cons.prems obtain fld s1 s2 where a: "addField s g (fst cfg) = Inr (fld, s1)"
        and b: "setRow (initField k fld s1) (idx fld) (snd cfg) = Inr s2"
        and r: "configLoop ck g k rest ((fst cfg, initLeaf k fld) # seen) s2 = Inr (seen', s')"
        by (auto split: sum.splits)
      have "schemaInv s2"
        using schemaInv_setRow [OF schemaInv_initField [OF schemaInv_addField [OF Cons.prems(1) a]] b] .
      then show ?thesis using r by (rule Cons.IH)
    qed
  qed
qed

lemma schemaInv_runProj: "schemaInv s \<Longrightarrow> runProj f r p s = Inr (f', p', s') \<Longrightarrow> schemaInv s'"
proof (cases f)
  case (ProjConfig g k seen)
  assume "schemaInv s" "runProj f r p s = Inr (f', p', s')"
  with ProjConfig show ?thesis by (auto split: sum.splits dest: schemaInv_configLoop)
next
  case (ProjFullname fld)
  assume "schemaInv s" "runProj f r p s = Inr (f', p', s')"
  with ProjFullname show ?thesis by (auto simp: Let_def split: sum.splits if_splits dest: schemaInv_setRow)
next
  case (ProjKey ext fld)
  assume "schemaInv s" "runProj f r p s = Inr (f', p', s')"
  with ProjKey show ?thesis by (auto split: sum.splits dest: schemaInv_setRow)
qed

lemma schemaInv_projectLoop: "schemaInv s \<Longrightarrow> projectLoop dn todo r p s = Inr (p', s') \<Longrightarrow> schemaInv s'"
proof (induction todo arbitrary: dn p s)
  case Nil
  then show ?case by (auto intro: schemaInv_project_update)
next
  case (Cons f todo)
  from Cons.prems obtain f1 p1 s1 where a: "runProj f r p s = Inr (f1, p1, s1)"
    and b: "projectLoop (dn @ [f1]) todo r p1 s1 = Inr (p', s')"
    by (auto split: sum.splits)
  from schemaInv_runProj [OF Cons.prems(1) a] b show ?case by (rule Cons.IH)
qed

lemma schemaInv_populateRow: "schemaInv s \<Longrightarrow> populateRow r p s = Inr (p', s') \<Longrightarrow> schemaInv s'"
  unfolding populateRow_def
  by (erule schemaInv_projectLoop [rotated]) (rule schemaInv_row_update)

lemma schemaInv_Project: "schemaInv s \<Longrightarrow> Project hsh r p s = Inr (c, p', s') \<Longrightarrow> schemaInv s'"
  by (auto simp: Project_def split: sum.splits prod.splits dest: schemaInv_populateRow schemaInv_internRow)

lemma schemaInv_field_step:
  "schemaInv s \<Longrightarrow> addField s g name = Inr (fld, s1) \<Longrightarrow>
     schemaInv ((initField k fld s1)\<lparr>project := fs\<rparr>)"
  by (intro schemaInv_project_update schemaInv_initField) (rule schemaInv_addField)

lemma schemaInv_group_step:
  "schemaInv s \<Longrightarrow> addGroup s [] name = Inr (g', s1) \<Longrightarrow> schemaInv (s1\<lparr>project := fs\<rparr>)"
  by (intro schemaInv_project_update) (rule schemaInv_addGroup)

lemma schemaInv_makeProjection:
  assumes "schemaInv s" "makeProjection p s q proj = Inr (p', Inr (f, s'))"
  shows "schemaInv s'"
  using assms unfolding makeProjection_def Let_def
  by (auto split: option.splits if_splits sum.splits prod.splits
      intro: schemaInv_field_step schemaInv_group_step)

lemma schemaInv_parseLoop:
  "schemaInv s \<Longrightarrow> parseLoop p s q parts fs = Inr (p', Inr (s', fs')) \<Longrightarrow> schemaInv s'"
proof (induction parts arbitrary: p s fs)
  case Nil
  then show ?case by simp
next
  case (Cons part parts)
  from Cons.prems obtain p1 f s1 where a: "makeProjection p s q part = Inr (p1, Inr (f, s1))"
    and b: "parseLoop p1 s1 q parts (case f of None \<Rightarrow> fs | Some g \<Rightarrow> fs @ [g]) = Inr (p', Inr (s', fs'))"
    by (auto split: sum.splits prod.splits)
  from schemaInv_makeProjection [OF Cons.prems(1) a] b show ?case by (rule Cons.IH)
qed

lemma projected_schemaInv: "projected hsh s s' \<Longrightarrow> schemaInv s \<Longrightarrow> schemaInv s'"
  by (induction rule: projected.induct) (auto dest: schemaInv_Project)

lemma ex_parse: "\<exists>fs. parseLoop newProjectionParser (newSchema 1) ''a,.config@alpha'' exParts [] = Inr (exParser, Inr (exSchema, fs))"
proof -
  have "\<not> isl (parseLoop newProjectionParser (newSchema 1) ''a,.config@alpha'' exParts [])
       \<and> \<not> isl (snd (projr (parseLoop newProjectionParser (newSchema 1) ''a,.config@alpha'' exParts [])))"
    by code_simp
  then obtain p s fs where e: "parseLoop newProjectionParser (newSchema 1) ''a,.config@alpha'' exParts [] = Inr (p, Inr (s, fs))"
    by (cases "parseLoop newProjectionParser (newSchema 1) ''a,.config@alpha'' exParts []";
        cases "snd (projr (parseLoop newProjectionParser (newSchema 1) ''a,.config@alpha'' exParts []))")
       auto
  then show ?thesis by (simp add: exSchema_def exParser_def)
qed

lemma ex_schemaInv: "schemaInv exSchema"
  using ex_parse schemaInv_parseLoop [OF schemaInv_newSchema] by blast


text \<open>
  C2. Adding a field to a Schema that has interned Configs gives the new field the
  storage index \<open>nFields\<close>, which no field of the Schema has, and makes
  \<open>nFields\<close> one more, with a slot of the row buffer for the field; the
  flattened fields are the old ones, unchanged and in their order, with the new
  field put in somewhere; the table of interned Configs is the same (same nodes,
  same values, same buckets), a row that trims to the values of an old node still
  interns to that node, and the tuple order of any two old nodes is what it was.
  The invariants of the tree hold again afterwards, so the next field gets the
  next index: when the indexes of the fields were the numbers below \<open>nFields\<close>,
  each once, they still are. Both invariants hold of a new Schema and are kept
  by the parser and by Project (\<open>schemaInv_newSchema\<close>, \<open>schemaInv_parseLoop\<close>,
  \<open>schemaInv_Project\<close>, \<open>tableInv_newSchema\<close>, \<open>Project_inv\<close>).
\<close>

theorem addField_growth:
  assumes tree: "treeInv s" and tab: "tableInv hsh s" and add: "addField s grp name = Inr (f, s')"
  shows "idx f = int (nFields s) \<and> (\<forall>g \<in> set (fst (Fields s)). idx g \<noteq> idx f)
    \<and> (\<exists>pre post. fst (Fields s) = pre @ post \<and> fst (Fields s') = pre @ f # post)
    \<and> configs s' = configs s \<and> nodes s' = nodes s \<and> tableInv hsh s'
    \<and> (\<forall>n \<in> nodes s. \<forall>rw. length rw = nFields s' \<and> trimRow rw = vals n \<longrightarrow>
          internRow hsh (s'\<lparr>row := rw\<rparr>) = (Some n, s'\<lparr>row := rw\<rparr>))
    \<and> (\<forall>n \<in> nodes s. \<forall>m \<in> nodes s. \<forall>pf.
          less_tuples pf (fst (Fields s')) (vals n) (vals m) = less_tuples pf (fst (Fields s)) (vals n) (vals m))
    \<and> nFields s' = nFields s + 1 \<and> length (row s') = nFields s' \<and> treeInv s'
    \<and> (indexInv s \<longrightarrow> indexInv s')"
proof -
  from add obtain g where g: "nodeAt (sroot s) grp = Some g" "idx g = -1"
    and f: "f = Field name (Some (sid s)) (int (nFields s)) [] CmpNil None"
    and s': "s' = s\<lparr>nFields := nFields s + 1, sroot := appendAt (sroot s) grp f, row := row s @ [''''], flatCache := None\<rparr>"
    by (auto simp: addField_def Let_def split: option.splits if_splits)
  have idxf: "idx f = int (nFields s)" using f by simp
  have fl: "fst (Fields s) = walk (sroot s)" using tree by (rule Fields_valid)
  have fl': "fst (Fields s') = walk (appendAt (sroot s) grp f)" using s' by (simp add: Fields_def Let_def)
  have ok: "treeOK (sroot s)" using tree by (simp add: treeInv_def)
  have "idx f \<noteq> -1" using idxf by simp
  from walk_appendAt [OF ok g this] obtain pre post where
    w: "walk (sroot s) = pre @ post" "walk (appendAt (sroot s) grp f) = pre @ f # post" by blast
  have unused: "\<forall>g \<in> set (fst (Fields s)). idx g \<noteq> idx f"
    using tree fl idxf by (auto simp: treeInv_def)
  have gr: "grows s s'" using add by (rule grows_addField)
  have tab': "tableInv hsh s'" using tab gr by (rule grows_tableInv)
  have cf: "configs s' = configs s" using s' by simp
  have nd: "nodes s' = nodes s" using gr by (rule grows_nodes)
  have short: "\<forall>n \<in> nodes s. length (vals n) \<le> nFields s \<and> nschema n = Some (sid s)"
    using tab by (auto simp: tableInv_def nodes_iff)
  have reint: "\<forall>n \<in> nodes s. \<forall>rw. length rw = nFields s' \<and> trimRow rw = vals n \<longrightarrow>
          internRow hsh (s'\<lparr>row := rw\<rparr>) = (Some n, s'\<lparr>row := rw\<rparr>)"
  proof (intro ballI allI impI)
    fix n rw assume n: "n \<in> nodes s" and rw: "length rw = nFields s' \<and> trimRow rw = vals n"
    have "tableInv hsh (s'\<lparr>row := rw\<rparr>)" using tab' rw by (simp add: tableInv_def nodes_def)
    moreover have "n \<in> nodes (s'\<lparr>row := rw\<rparr>)" using n nd by (simp add: nodes_def)
    ultimately show "internRow hsh (s'\<lparr>row := rw\<rparr>) = (Some n, s'\<lparr>row := rw\<rparr>)"
      using rw by (intro internRow_existing) auto
  qed
  have lt: "\<forall>n \<in> nodes s. \<forall>m \<in> nodes s. \<forall>pf.
          less_tuples pf (fst (Fields s')) (vals n) (vals m) = less_tuples pf (fst (Fields s)) (vals n) (vals m)"
  proof (intro ballI allI)
    fix n m pf assume "n \<in> nodes s" "m \<in> nodes s"
    then have "valAt (vals n) (idx f) = valAt (vals m) (idx f)"
      using short idxf by (simp add: valAt_past)
    then show "less_tuples pf (fst (Fields s')) (vals n) (vals m) = less_tuples pf (fst (Fields s)) (vals n) (vals m)"
      using fl fl' w idxf by (simp add: less_tuples_insert)
  qed
  have "\<exists>pre post. fst (Fields s) = pre @ post \<and> fst (Fields s') = pre @ f # post"
    using fl fl' w by auto
  moreover have "nFields s' = nFields s + 1" using s' by simp
  moreover have "length (row s') = nFields s'" using tab' by (simp add: tableInv_def)
  moreover have "treeInv s'" using tree add by (rule treeInv_addField)
  moreover have "indexInv s \<longrightarrow> indexInv s'" using tree add by (auto intro: indexInv_addField)
  ultimately show ?thesis using idxf unused cf nd tab' reint lt by blast
qed



lemma ex_grow_eval: "case Project exHash exR1 exParser exSchema of Inl e \<Rightarrow> False
   | Inr (c, p, sa) \<Rightarrow> treeInv sa \<and> nFields sa = 2 \<and> c \<noteq> None \<and> vals (the c) = [''1'', ''2''] \<and> 
       (case addField sa [1] ''z'' of Inl e \<Rightarrow> False | Inr (f, s') \<Rightarrow> Name f = ''z'')"
  by code_simp

theorem addField_growth_witness:
  "\<exists>c p sa f s' f2 s2. Project exHash exR1 exParser exSchema = Inr (Some c, p, sa)
     \<and> treeInv sa \<and> tableInv exHash sa \<and> indexInv sa \<and> addField sa [1] ''z'' = Inr (f, s')
     \<and> c \<in> nodes sa \<and> idx f = 2 \<and> nFields s' = 3
     \<and> fst (internRow exHash (s'\<lparr>row := [''1'', ''2'', '''']\<rparr>)) = Some c
     \<and> treeInv s' \<and> tableInv exHash s' \<and> indexInv s'
     \<and> addField s' [] ''y'' = Inr (f2, s2) \<and> idx f2 = 3 \<and> nFields s2 = 4 \<and> indexInv s2"
proof -
  from ex_grow_eval obtain c p sa where
    a: "Project exHash exR1 exParser exSchema = Inr (c, p, sa)" and
    r: "treeInv sa \<and> nFields sa = 2 \<and> c \<noteq> None \<and> vals (the c) = [''1'', ''2''] \<and> 
       (case addField sa [1] ''z'' of Inl e \<Rightarrow> False | Inr (f, s') \<Rightarrow> Name f = ''z'')"
    by (rule case_InrE)
  from r obtain f s' where add: "addField sa [1] ''z'' = Inr (f, s')"
    by (cases "addField sa [1] ''z''") auto
  from r have nf: "nFields sa = 2" by auto
  have inv: "schemaInv sa" using ex_schemaInv a by (rule schemaInv_Project)
  then have tree: "treeInv sa" and ix: "indexInv sa" by (simp_all add: schemaInv_def)
  from Project_inv [OF ex_inv a] r obtain n where n: "c = Some n" "n \<in> nodes sa" "vals n = [''1'', ''2'']"
    and tab: "tableInv exHash sa" by auto
  note g = addField_growth [OF tree tab add]
  from g nf have nf': "nFields s' = 3" and idxf: "idx f = 2" by auto
  from g ix have tree': "treeInv s'" and tab': "tableInv exHash s'" and ix': "indexInv s'" by auto
  have tr: "trimRow [''1'', ''2'', ''''] = [''1'', ''2'']" by code_simp
  from g n have "internRow exHash (s'\<lparr>row := [''1'', ''2'', '''']\<rparr>) = (Some n, s'\<lparr>row := [''1'', ''2'', '''']\<rparr>)"
    using nf' tr by auto
  then have re: "fst (internRow exHash (s'\<lparr>row := [''1'', ''2'', '''']\<rparr>)) = Some n" by simp
  have "idx (sroot s') = -1" using tree' by (simp add: treeInv_def)
  then obtain f2 s2 where add2: "addField s' [] ''y'' = Inr (f2, s2)"
    by (simp add: addField_def Let_def)
  note g2 = addField_growth [OF tree' tab' add2]
  from g2 nf' ix' have "idx f2 = 3" "nFields s2 = 4" "indexInv s2" by auto
  then show ?thesis using a n tree tab ix add idxf nf' re tree' tab' ix' add2 by blast
qed

text \<open>
  C10. Reading a Config at a field of its Schema whose storage index is at or past
  the end of the stored tuple gives the empty string; so does reading any Config
  that a Schema has interned at a field that is added to the Schema afterwards.
\<close>

theorem Get_past_end:
  "(\<forall>n f. nschema n = fschema f \<and> int (length (vals n)) \<le> idx f \<longrightarrow> Get (Some n) f = Inr [])
   \<and> (\<forall>hsh s n grp name f s'. tableInv hsh s \<and> n \<in> nodes s \<and> addField s grp name = Inr (f, s')
         \<longrightarrow> Get (Some n) f = Inr [])"
proof -
  have 1: "Get (Some n) f = Inr []" if "nschema n = fschema f" "int (length (vals n)) \<le> idx f" for n f
    using that by (simp add: Get_def)
  have 2: "Get (Some n) f = Inr []"
    if t: "tableInv hsh s" and n: "n \<in> nodes s" and a: "addField s grp name = Inr (f, s')"
    for hsh s n grp name f s'
  proof -
    from a have f: "idx f = int (nFields s)" "fschema f = Some (sid s)"
      by (auto simp: addField_def Let_def split: option.splits if_splits)
    from t n have "length (vals n) \<le> nFields s" "nschema n = Some (sid s)"
      by (auto simp: tableInv_def nodes_iff)
    with f show ?thesis by (intro 1) auto
  qed
  show ?thesis using 1 2 by blast
qed

theorem Get_past_end_witness:
  "\<exists>c p sa f s'. Project exHash exR1 exParser exSchema = Inr (Some c, p, sa)
     \<and> tableInv exHash sa \<and> c \<in> nodes sa \<and> addField sa [1] ''z'' = Inr (f, s')
     \<and> nschema c = fschema f \<and> int (length (vals c)) \<le> idx f \<and> Get (Some c) f = Inr []"
proof -
  from ex_grow_eval obtain c p sa where
    a: "Project exHash exR1 exParser exSchema = Inr (c, p, sa)" and
    r: "treeInv sa \<and> nFields sa = 2 \<and> c \<noteq> None \<and> vals (the c) = [''1'', ''2''] \<and> 
       (case addField sa [1] ''z'' of Inl e \<Rightarrow> False | Inr (f, s') \<Rightarrow> Name f = ''z'')"
    by (rule case_InrE)
  from r obtain f s' where add: "addField sa [1] ''z'' = Inr (f, s')"
    by (cases "addField sa [1] ''z''") auto
  from Project_inv [OF ex_inv a] r obtain n where n: "c = Some n" "n \<in> nodes sa" "vals n = [''1'', ''2'']"
    and tab: "tableInv exHash sa" by auto
  from add have f: "idx f = int (nFields sa)" "fschema f = Some (sid sa)"
    by (auto simp: addField_def Let_def split: option.splits if_splits)
  from tab n(2) have k: "length (vals n) \<le> nFields sa" "nschema n = Some (sid sa)"
    by (auto simp: tableInv_def nodes_iff)
  from Get_past_end tab n add have "Get (Some n) f = Inr []" by blast
  moreover from Get_past_end f k have "Get (Some n) f = Inr []" by auto
  ultimately show ?thesis using a n tab add f k by auto
qed

subsection \<open>The tuple order\<close>


lemma cmpOK_key: "cmpOK (\<lambda>x y. k x - (k y :: int))"
  by (auto simp: cmpOK_def)

lemma cmpOK_alpha: "cmpOK alphaCmp"
  by (auto simp: cmpOK_def alphaCmp_def)

lemma flt_cases_trans: "flt a b \<Longrightarrow> flt b c \<Longrightarrow> flt a c"
  by (cases a; cases b; cases c) auto

lemma flt_asym: "flt a b \<Longrightarrow> \<not> flt b a"
  by (cases a; cases b) auto

lemma flt_total: "a \<noteq> NaN \<Longrightarrow> b \<noteq> NaN \<Longrightarrow> flt a b \<or> flt b a \<or> a = b"
  by (cases a; cases b) auto

lemma flt_NaN [simp]: "\<not> flt a NaN" "\<not> flt NaN a"
  by (cases a; simp)+

lemma numCmp_numOrd: "numCmp pf a b = numOrd (parseNum pf a) (parseNum pf b)"
  by (simp add: numCmp_def numOrd_def)

lemma numOrd_anti: "(numOrd a b < 0) = (numOrd b a > 0)"
  by (cases a; cases b) (auto simp: numOrd_def IsNaN_def dest: flt_asym)

lemma numOrd_le: "numOrd a b \<le> 0 \<longleftrightarrow> (case (a, b) of (None, None) \<Rightarrow> True | (None, Some y) \<Rightarrow> False | (Some x, None) \<Rightarrow> True
     | (Some x, Some y) \<Rightarrow> y = NaN \<or> (x \<noteq> NaN \<and> \<not> flt y x))"
  by (cases a; cases b) (auto simp: numOrd_def IsNaN_def dest: flt_asym)

lemma nflt_trans: "x \<noteq> NaN \<Longrightarrow> y \<noteq> NaN \<Longrightarrow> z \<noteq> NaN \<Longrightarrow> \<not> flt y x \<Longrightarrow> \<not> flt z y \<Longrightarrow> \<not> flt z x"
  by (cases x; cases y; cases z) auto

lemma numOrd_trans: "numOrd a b \<le> 0 \<Longrightarrow> numOrd b c \<le> 0 \<Longrightarrow> numOrd a c \<le> 0"
  unfolding numOrd_le by (cases a; cases b; cases c) (auto, meson nflt_trans)

lemma cmpOK_num: "cmpOK (numCmp pf)"
  unfolding cmpOK_def numCmp_numOrd using numOrd_anti numOrd_trans by blast

lemma fieldCmp_cmpOf: "fcmp f \<noteq> CmpNil \<Longrightarrow> fieldCmp pf f x y = Inr (cmpOf pf f x y)"
  by (auto simp: cmpOf_def fieldCmp_def split: cmpKind.splits option.splits)

lemma cmpOK_cmpOf: "fcmp f \<noteq> CmpNil \<Longrightarrow> cmpOK (cmpOf pf f)"
proof (cases "fcmp f")
  case (CmpFixed ws)
  then have "cmpOf pf f = (\<lambda>x y. mapGet (fixedMap ws x) - mapGet (fixedMap ws y))"
    by (auto simp: cmpOf_def fieldCmp_def fun_eq_iff)
  then show ?thesis by (simp add: cmpOK_key)
next
  case CmpFirst
  show ?thesis
  proof (cases "forder f")
    case None
    with CmpFirst have "cmpOf pf f = (\<lambda>x y. (\<lambda>_. 0) x - (\<lambda>_. 0) y)"
      by (auto simp: cmpOf_def fieldCmp_def fun_eq_iff)
    then show ?thesis by (simp only: cmpOK_key)
  next
    case (Some om)
    with CmpFirst have "cmpOf pf f = (\<lambda>x y. mapGet (map_of om x) - mapGet (map_of om y))"
      by (auto simp: cmpOf_def fieldCmp_def fun_eq_iff)
    then show ?thesis by (simp add: cmpOK_key)
  qed
next
  case CmpAlpha
  then have "cmpOf pf f = alphaCmp" by (auto simp: cmpOf_def fieldCmp_def fun_eq_iff)
  then show ?thesis by (simp add: cmpOK_alpha)
next
  case CmpNum
  then have "cmpOf pf f = numCmp pf" by (auto simp: cmpOf_def fieldCmp_def fun_eq_iff)
  then show ?thesis by (simp add: cmpOK_num)
qed simp

lemma lt1_irrefl: "\<not> lt1 c x x \<or> c x x < 0"
  by (auto simp: lt1_def)

lemma cmpOK_refl0: "cmpOK c \<Longrightarrow> c x x = 0"
  unfolding cmpOK_def by (metis less_numeral_extra(3) linorder_neqE_linordered_idom order.asym)

lemma cmpOK_zero_sym: "cmpOK c \<Longrightarrow> c x y = 0 \<Longrightarrow> c y x = 0"
  unfolding cmpOK_def by (metis less_numeral_extra(3) linorder_neqE_linordered_idom)

lemma lt1_total: "cmpOK c \<Longrightarrow> x \<noteq> y \<Longrightarrow> lt1 c x y \<noteq> lt1 c y x"
proof -
  assume ok: "cmpOK c" and ne: "x \<noteq> y"
  consider "c x y < 0" | "c x y > 0" | "c x y = 0" by linarith
  then show ?thesis
  proof cases
    case 1 then have "c y x > 0" using ok by (simp add: cmpOK_def)
    with 1 show ?thesis by (simp add: lt1_def)
  next
    case 2 then have "c y x < 0" using ok by (simp add: cmpOK_def)
    with 2 show ?thesis by (simp add: lt1_def)
  next
    case 3 then have "c y x = 0" using ok by (rule cmpOK_zero_sym [rotated])
    with 3 ne show ?thesis by (auto simp: lt1_def)
  qed
qed

lemma lt1_trans:
  assumes ok: "cmpOK c" and xy: "lt1 c x y" and yz: "lt1 c y z"
  shows "lt1 c x z \<and> x \<noteq> z"
proof -
  have anti: "\<And>a b. (c a b < 0) = (c b a > 0)" and tr: "\<And>a b d. c a b \<le> 0 \<Longrightarrow> c b d \<le> 0 \<Longrightarrow> c a d \<le> 0"
    using ok unfolding cmpOK_def by blast+
  from xy have 1: "c x y \<le> 0" by (auto simp: lt1_def split: if_splits)
  from yz have 2: "c y z \<le> 0" by (auto simp: lt1_def split: if_splits)
  from tr [OF 1 2] have 3: "c x z \<le> 0" .
  show ?thesis
  proof (cases "c x z = 0")
    case False
    with 3 have "lt1 c x z" by (simp add: lt1_def)
    moreover have "x \<noteq> z" using False cmpOK_refl0 [OF ok] by auto
    ultimately show ?thesis by simp
  next
    case True
    then have zx: "c z x \<le> 0" using cmpOK_zero_sym [OF ok True] by simp
    have "c z y \<le> 0" using tr [OF zx 1] .
    with 2 anti [of y z] have yz0: "c y z = 0" by linarith
    have "c y x \<le> 0" using tr [OF 2 zx] .
    with 1 anti [of x y] have xy0: "c x y = 0" by linarith
    from xy xy0 have "x < y" by (simp add: lt1_def)
    moreover from yz yz0 have "y < z" by (simp add: lt1_def)
    ultimately have "x < z" by simp
    with True show ?thesis by (auto simp: lt1_def)
  qed
qed



lemma fieldLt_lt1: "fcmp f \<noteq> CmpNil \<Longrightarrow> fieldLt pf f x y = lt1 (cmpOf pf f) x y"
  by (simp add: fieldLt_def fieldCmp_cmpOf lt1_def)

lemma less_tuples_Cons:
  assumes "0 \<le> idx f" "fcmp f \<noteq> CmpNil"
  shows "less_tuples pf (f # flat) a b =
     (if valAt a (idx f) \<noteq> valAt b (idx f) then Inr (lt1 (cmpOf pf f) (valAt a (idx f)) (valAt b (idx f)))
      else less_tuples pf flat a b)"
  using assms by (auto simp: Let_def fieldCmp_cmpOf lt1_def)

lemma less_tuples_find:
  assumes "\<forall>f \<in> set flat. 0 \<le> idx f \<and> fcmp f \<noteq> CmpNil"
  shows "less_tuples pf flat a b =
     Inr (case find (\<lambda>f. valAt a (idx f) \<noteq> valAt b (idx f)) flat of
            None \<Rightarrow> False
          | Some f \<Rightarrow> fieldLt pf f (valAt a (idx f)) (valAt b (idx f)))"
  using assms
proof (induction flat)
  case Nil
  then show ?case by simp
next
  case (Cons f flat)
  then have f: "0 \<le> idx f" "fcmp f \<noteq> CmpNil" by auto
  show ?case using Cons by (simp add: less_tuples_Cons [OF f] fieldLt_lt1 [OF f(2)] del: less_tuples.simps)
qed

lemma less_tuples_equal:
  assumes "\<forall>f \<in> set flat. 0 \<le> idx f \<and> fcmp f \<noteq> CmpNil"
    and "\<forall>f \<in> set flat. valAt a (idx f) = valAt b (idx f)"
  shows "less_tuples pf flat a b = Inr False"
proof -
  have "find (\<lambda>f. valAt a (idx f) \<noteq> valAt b (idx f)) flat = None"
    using assms(2) by (simp add: find_None_iff)
  then show ?thesis using less_tuples_find [OF assms(1)] by simp
qed

lemma less_tuples_total:
  assumes ok: "\<forall>f \<in> set flat. 0 \<le> idx f \<and> fcmp f \<noteq> CmpNil"
    and ne: "\<exists>f \<in> set flat. valAt a (idx f) \<noteq> valAt b (idx f)"
  shows "(less_tuples pf flat a b = Inr True) \<noteq> (less_tuples pf flat b a = Inr True)"
  using assms
proof (induction flat)
  case Nil
  then show ?case by simp
next
  case (Cons f flat)
  then have f: "0 \<le> idx f" "fcmp f \<noteq> CmpNil" by auto
  show ?case
  proof (cases "valAt a (idx f) = valAt b (idx f)")
    case True
    with Cons show ?thesis by (simp add: less_tuples_Cons [OF f] del: less_tuples.simps)
  next
    case False
    from lt1_total [OF cmpOK_cmpOf [OF f(2)] False]
    show ?thesis using False by (auto simp add: less_tuples_Cons [OF f] simp del: less_tuples.simps)
  qed
qed

lemma less_tuples_trans:
  assumes ok: "\<forall>f \<in> set flat. 0 \<le> idx f \<and> fcmp f \<noteq> CmpNil"
    and ab: "less_tuples pf flat a b = Inr True" and bc: "less_tuples pf flat b c = Inr True"
  shows "less_tuples pf flat a c = Inr True"
  using assms
proof (induction flat)
  case Nil
  then show ?case by simp
next
  case (Cons f flat)
  then have f: "0 \<le> idx f" "fcmp f \<noteq> CmpNil" by auto
  let ?x = "valAt a (idx f)" and ?y = "valAt b (idx f)" and ?z = "valAt c (idx f)"
  note ok1 = cmpOK_cmpOf [OF f(2), of pf]
  show ?case
  proof (cases "?x = ?y")
    case xy: True
    show ?thesis
    proof (cases "?y = ?z")
      case True
      with xy Cons show ?thesis by (simp add: less_tuples_Cons [OF f] del: less_tuples.simps)
    next
      case False
      with xy Cons.prems show ?thesis by (simp add: less_tuples_Cons [OF f] del: less_tuples.simps)
    qed
  next
    case xy: False
    with Cons.prems(2) have l1: "lt1 (cmpOf pf f) ?x ?y" by (simp add: less_tuples_Cons [OF f] del: less_tuples.simps)
    show ?thesis
    proof (cases "?y = ?z")
      case True
      with xy l1 show ?thesis by (simp add: less_tuples_Cons [OF f] del: less_tuples.simps)
    next
      case False
      with Cons.prems(3) have l2: "lt1 (cmpOf pf f) ?y ?z" by (simp add: less_tuples_Cons [OF f] del: less_tuples.simps)
      from lt1_trans [OF ok1 l1 l2] show ?thesis by (simp add: less_tuples_Cons [OF f] del: less_tuples.simps)
    qed
  qed
qed

lemma covered_differ:
  assumes cov: "covered s" and la: "length a \<le> nFields s" and lb: "length b \<le> nFields s"
    and ta: "trimRow a = a" and tb: "trimRow b = b" and ne: "a \<noteq> b"
  shows "\<exists>f \<in> set (walk (sroot s)). valAt a (idx f) \<noteq> valAt b (idx f)"
proof -
  from ne ta tb have "trimRow a \<noteq> trimRow b" by simp
  then obtain i where i: "0 \<le> i" "valAt a i \<noteq> valAt b i" by (auto simp: trimRow_eq_iff)
  then have "i < int (nFields s)" using la lb by (auto simp: valAt_def split: if_splits)
  with i(1) have "nat i \<in> {0..<nFields s}" by auto
  with cov obtain f where "f \<in> set (walk (sroot s))" "idx f = int (nat i)" unfolding covered_def by blast
  with i show ?thesis by auto
qed

lemma walk_nonneg: "treeOK f \<Longrightarrow> g \<in> set (walk f) \<Longrightarrow> 0 \<le> idx g"
  by (induction f rule: walk.induct) (auto split: if_splits)

text \<open>
  C3. For the Configs of one Schema, the tuple order looks at the fields in the
  order of the flattened schema; the first field where the two values differ
  decides, by its comparison function, and by the byte-wise order of the two strings
  when that function answers \<open>0\<close>. The order is irreflexive and transitive, and
  of two different Configs exactly one is less than the other.
\<close>

theorem Less_strict_order:
  assumes tree: "treeInv s" and cov: "covered s" and tab: "tableInv hsh s"
    and cmps: "\<forall>f \<in> set (walk (sroot s)). fcmp f \<noteq> CmpNil"
    and n: "n \<in> nodes s" and m: "m \<in> nodes s" and k: "k \<in> nodes s"
  shows "Less pf s (Some n) (Some m) =
           Inr (case find (\<lambda>f. valAt (vals n) (idx f) \<noteq> valAt (vals m) (idx f)) (fst (Fields s)) of
                  None \<Rightarrow> False
                | Some f \<Rightarrow> fieldLt pf f (valAt (vals n) (idx f)) (valAt (vals m) (idx f)))
       \<and> Less pf s (Some n) (Some n) = Inr False
       \<and> (n \<noteq> m \<longrightarrow> (Less pf s (Some n) (Some m) = Inr True) \<noteq> (Less pf s (Some m) (Some n) = Inr True))
       \<and> (Less pf s (Some n) (Some m) = Inr True \<and> Less pf s (Some m) (Some k) = Inr True
            \<longrightarrow> Less pf s (Some n) (Some k) = Inr True)"
proof -
  have fl: "fst (Fields s) = walk (sroot s)" using tree by (rule Fields_valid)
  have ok: "\<forall>f \<in> set (walk (sroot s)). 0 \<le> idx f \<and> fcmp f \<noteq> CmpNil"
    using tree cmps walk_nonneg by (auto simp: treeInv_def)
  have sch: "nschema n = Some (sid s)" "nschema m = Some (sid s)" "nschema k = Some (sid s)"
    using tab n m k by (auto simp: tableInv_def nodes_iff)
  have L: "\<And>x y. x \<in> nodes s \<Longrightarrow> y \<in> nodes s \<Longrightarrow> Less pf s (Some x) (Some y) = less_tuples pf (walk (sroot s)) (vals x) (vals y)"
    using tab fl by (auto simp: Less_def tableInv_def nodes_iff)
  have 1: "less_tuples pf (walk (sroot s)) (vals n) (vals n) = Inr False"
    using ok by (intro less_tuples_equal) auto
  have 2: "n \<noteq> m \<longrightarrow> (less_tuples pf (walk (sroot s)) (vals n) (vals m) = Inr True) \<noteq> (less_tuples pf (walk (sroot s)) (vals m) (vals n) = Inr True)"
  proof
    assume ne: "n \<noteq> m"
    have v: "vals n \<noteq> vals m" using tab n m ne unfolding tableInv_def by blast
    have p: "length (vals n) \<le> nFields s" "length (vals m) \<le> nFields s" "trimRow (vals n) = vals n" "trimRow (vals m) = vals m"
      using tab n m by (auto simp: tableInv_def nodes_iff)
    from covered_differ [OF cov p v] ok
    show "(less_tuples pf (walk (sroot s)) (vals n) (vals m) = Inr True) \<noteq> (less_tuples pf (walk (sroot s)) (vals m) (vals n) = Inr True)"
      by (intro less_tuples_total) auto
  qed
  show ?thesis
    using less_tuples_find [OF ok, of pf "vals n" "vals m"] 1 2 less_tuples_trans [OF ok, of pf "vals n" "vals m" "vals k"]
    by (simp add: L n m k fl)
qed



lemma ex_order_eval: "case Project exHash exR1 exParser exSchema of Inl e \<Rightarrow> False
   | Inr (c1, pa, sa) \<Rightarrow> (case Project exHash exR3 pa sa of Inl e \<Rightarrow> False
       | Inr (c3, pb, sb) \<Rightarrow> treeInv sb \<and> covered sb \<and> (\<forall>f \<in> set (walk (sroot sb)). fcmp f \<noteq> CmpNil)
            \<and> c1 \<noteq> c3 \<and> Less (\<lambda>x. None) sb c1 c3 = Inr True)"
  by code_simp

theorem Less_strict_order_witness:
  "\<exists>n1 pa sa n3 pb sb.
      Project exHash exR1 exParser exSchema = Inr (Some n1, pa, sa) \<and>
      Project exHash exR3 pa sa = Inr (Some n3, pb, sb) \<and>
      treeInv sb \<and> covered sb \<and> tableInv exHash sb \<and> (\<forall>f \<in> set (walk (sroot sb)). fcmp f \<noteq> CmpNil) \<and>
      n1 \<in> nodes sb \<and> n3 \<in> nodes sb \<and> n1 \<noteq> n3 \<and>
      Less (\<lambda>x. None) sb (Some n1) (Some n3) = Inr True \<and>
      Less (\<lambda>x. None) sb (Some n3) (Some n1) \<noteq> Inr True \<and>
      Less (\<lambda>x. None) sb (Some n1) (Some n1) = Inr False"
proof -
  from ex_order_eval obtain c1 pa sa where
    a: "Project exHash exR1 exParser exSchema = Inr (c1, pa, sa)" and
    r: "case Project exHash exR3 pa sa of Inl e \<Rightarrow> False
       | Inr (c3, pb, sb) \<Rightarrow> treeInv sb \<and> covered sb \<and> (\<forall>f \<in> set (walk (sroot sb)). fcmp f \<noteq> CmpNil)
            \<and> c1 \<noteq> c3 \<and> Less (\<lambda>x. None) sb c1 c3 = Inr True"
    by (rule case_InrE)
  from r obtain c3 pb sb where
    b: "Project exHash exR3 pa sa = Inr (c3, pb, sb)" and
    q: "treeInv sb \<and> covered sb \<and> (\<forall>f \<in> set (walk (sroot sb)). fcmp f \<noteq> CmpNil)
            \<and> c1 \<noteq> c3 \<and> Less (\<lambda>x. None) sb c1 c3 = Inr True"
    by (rule case_InrE)
  from Project_inv [OF ex_inv a] obtain n1 where n1: "c1 = Some n1" "n1 \<in> nodes sa" and ia: "tableInv exHash sa" by blast
  from Project_inv [OF ia b] obtain n3 where n3: "c3 = Some n3" "n3 \<in> nodes sb" and ib: "tableInv exHash sb"
    and sub: "nodes sa \<subseteq> nodes sb" by blast
  have in1: "n1 \<in> nodes sb" using n1 sub by auto
  from q have tree: "treeInv sb" and cov: "covered sb" and cm: "\<forall>f \<in> set (walk (sroot sb)). fcmp f \<noteq> CmpNil"
    and ne: "n1 \<noteq> n3" and lt: "Less (\<lambda>x. None) sb (Some n1) (Some n3) = Inr True"
    using n1 n3 by auto
  from Less_strict_order [OF tree cov ib cm in1 n3(2) in1, of "\<lambda>x. None"] ne lt
  have "Less (\<lambda>x. None) sb (Some n3) (Some n1) \<noteq> Inr True" "Less (\<lambda>x. None) sb (Some n1) (Some n1) = Inr False"
    by auto
  then show ?thesis using a b n1 n3 tree cov ib cm in1 ne lt by blast
qed

subsection \<open>Numbers and the numeric order\<close>













lemma weird_rank:
  "list_all (\<lambda>x. list_all (\<lambda>y. numLess x y = (rankIn weird x < rankIn weird y)) weird) weird"
  by code_simp

lemma weird_ranks: "map (rankIn weird) weird = [0, 1, 2, 3, 4, 5, 6, 7]"
  by code_simp

lemma weird_distinct: "distinct weird"
  by code_simp

lemma weird_sorted: "sorted_wrt numLess weird"
  by code_simp

lemma weird_unique:
  assumes d: "distinct cs" and s: "set cs = set weird" and so: "sorted_wrt (\<lambda>x y. \<not> numLess y x) cs"
  shows "cs = weird"
proof -
  let ?rk = "rankIn weird"
  have lt: "numLess x y = (?rk x < ?rk y)" if "x \<in> set weird" "y \<in> set weird" for x y
    using weird_rank that by (auto simp: list_all_iff)
  have "sorted_wrt (\<lambda>x y. ?rk x \<le> ?rk y) cs"
    using so by (rule sorted_wrt_mono_rel [rotated]) (auto simp: s lt)
  then have 1: "sorted (map ?rk cs)" by (simp add: sorted_map)
  have dr: "distinct (map ?rk weird)" by (simp add: weird_ranks)
  then have inj: "inj_on ?rk (set weird)" by (simp add: distinct_map)
  have 2: "distinct (map ?rk cs)" using d inj s by (simp add: distinct_map)
  have 3: "set (map ?rk cs) = set (map ?rk weird)" using s by simp
  have 4: "sorted (map ?rk weird)" by (simp add: weird_ranks)
  have "map ?rk cs = map ?rk weird"
    using 1 2 3 4 dr by (intro sorted_distinct_set_unique) auto
  moreover have "inj_on ?rk (set cs \<union> set weird)" using inj s by simp
  ultimately show ?thesis by (simp add: inj_on_map_eq_map)
qed

lemma numCmp_fallback:
  assumes "a \<noteq> b" "numCmp pf a b = 0"
  shows "less_tuples pf [numField] [a] [b] = Inr (a < b)"
  using assms by (simp add: numField_def valAt_def fieldCmp_def Let_def)

text \<open>
  C4. Under the \<open>num\<close> comparison a string that \<open>parseNum\<close> parses comes before
  one that it does not; a number that is not NaN, infinite or not, comes before NaN;
  two strings that do not parse, and two NaNs, compare as \<open>0\<close>, and then the tuple
  order of a \<open>@num\<close> field is the order of the two strings. The eight values
  \<open>-inf, -infinity, 1, 1.0, inf, infinity, NaN, nan\<close> are strictly increasing in
  that tuple order, and this is the only arrangement of the eight values in which
  no value is less than one before it, which is what sorting them produces.
\<close>

theorem numCmp_order:
  "(\<forall>pf a b x. parseNum pf a = Some x \<and> parseNum pf b = None
        \<longrightarrow> numCmp pf a b = -1 \<and> numCmp pf b a = 1)
   \<and> (\<forall>pf a b x. parseNum pf a = Some x \<and> x \<noteq> NaN \<and> parseNum pf b = Some NaN
        \<longrightarrow> numCmp pf a b = -1 \<and> numCmp pf b a = 1)
   \<and> (\<forall>pf a b. parseNum pf a = None \<and> parseNum pf b = None \<longrightarrow> numCmp pf a b = 0)
   \<and> (\<forall>pf a b. parseNum pf a = Some NaN \<and> parseNum pf b = Some NaN \<longrightarrow> numCmp pf a b = 0)
   \<and> (\<forall>pf a b. a \<noteq> b \<and> numCmp pf a b = 0 \<longrightarrow> less_tuples pf [numField] [a] [b] = Inr (a < b))
   \<and> sorted_wrt numLess weird
   \<and> (\<forall>cs. distinct cs \<and> set cs = set weird \<and> sorted_wrt (\<lambda>x y. \<not> numLess y x) cs \<longrightarrow> cs = weird)"
proof -
  have 1: "numCmp pf a b = -1" "numCmp pf b a = 1"
    if "parseNum pf a = Some x" "parseNum pf b = None" for pf a b x
    using that by (simp_all add: numCmp_def)
  have 2: "numCmp pf a b = -1" "numCmp pf b a = 1"
    if "parseNum pf a = Some x" "x \<noteq> NaN" "parseNum pf b = Some NaN" for pf a b x
    using that by (simp_all add: numCmp_def IsNaN_def)
  have 3: "numCmp pf a b = 0" if "parseNum pf a = None" "parseNum pf b = None" for pf a b
    using that by (simp add: numCmp_def)
  have 4: "numCmp pf a b = 0" if "parseNum pf a = Some NaN" "parseNum pf b = Some NaN" for pf a b
    using that by (simp add: numCmp_def IsNaN_def)
  have 5: "less_tuples pf [numField] [a] [b] = Inr (a < b)" if "a \<noteq> b" "numCmp pf a b = 0" for pf a b
    using that by (rule numCmp_fallback)
  have 6: "cs = weird" if "distinct cs" "set cs = set weird" "sorted_wrt (\<lambda>x y. \<not> numLess y x) cs" for cs
    using that by (rule weird_unique)
  show ?thesis
    by (intro conjI allI impI; (elim conjE)?;
        (rule weird_sorted | (rule 1 2 3 4 5 6; assumption)))
qed

theorem numCmp_order_witness:
  "parseNum ParseFloat ''5k'' = Some (Fin 5000) \<and> parseNum ParseFloat ''abc'' = None
   \<and> numCmp ParseFloat ''5k'' ''abc'' = -1 \<and> numCmp ParseFloat ''abc'' ''5k'' = 1
   \<and> parseNum ParseFloat ''inf'' = Some PosInf \<and> PosInf \<noteq> NaN \<and> parseNum ParseFloat ''nan'' = Some NaN
   \<and> numCmp ParseFloat ''inf'' ''nan'' = -1 \<and> numCmp ParseFloat ''nan'' ''inf'' = 1
   \<and> parseNum ParseFloat ''xyz'' = None \<and> numCmp ParseFloat ''abc'' ''xyz'' = 0
   \<and> parseNum ParseFloat ''NaN'' = Some NaN \<and> numCmp ParseFloat ''NaN'' ''nan'' = 0
   \<and> ''NaN'' \<noteq> ''nan'' \<and> less_tuples ParseFloat [numField] [''NaN''] [''nan''] = Inr (''NaN'' < ''nan'')
   \<and> distinct weird \<and> set weird = set weird \<and> sorted_wrt (\<lambda>x y. \<not> numLess y x) weird"
proof -
  have h1: "parseNum ParseFloat ''5k'' = Some (Fin 5000)" by code_simp
  have h2: "parseNum ParseFloat ''abc'' = None" by code_simp
  have h3: "parseNum ParseFloat ''inf'' = Some PosInf" by code_simp
  have h4: "parseNum ParseFloat ''nan'' = Some NaN" by code_simp
  have h5: "parseNum ParseFloat ''xyz'' = None" by code_simp
  have h6: "parseNum ParseFloat ''NaN'' = Some NaN" by code_simp
  have h7: "''NaN'' \<noteq> ''nan''" by simp
  have h8: "sorted_wrt (\<lambda>x y. \<not> numLess y x) weird" by code_simp
  note t1 = numCmp_order [THEN conjunct1, rule_format]
  note t2 = numCmp_order [THEN conjunct2, THEN conjunct1, rule_format]
  note t3 = numCmp_order [THEN conjunct2, THEN conjunct2, THEN conjunct1, rule_format]
  note t4 = numCmp_order [THEN conjunct2, THEN conjunct2, THEN conjunct2, THEN conjunct1, rule_format]
  note t5 = numCmp_order [THEN conjunct2, THEN conjunct2, THEN conjunct2, THEN conjunct2, THEN conjunct1, rule_format]
  note t7 = numCmp_order [THEN conjunct2, THEN conjunct2, THEN conjunct2, THEN conjunct2, THEN conjunct2,
      THEN conjunct2, rule_format]
  have a: "numCmp ParseFloat ''5k'' ''abc'' = -1 \<and> numCmp ParseFloat ''abc'' ''5k'' = 1"
    using h1 h2 by (intro t1) simp
  have b: "numCmp ParseFloat ''inf'' ''nan'' = -1 \<and> numCmp ParseFloat ''nan'' ''inf'' = 1"
    using h3 h4 by (intro t2 [of _ _ PosInf]) simp
  have c: "numCmp ParseFloat ''abc'' ''xyz'' = 0" using h2 h5 by (intro t3) simp
  have d: "numCmp ParseFloat ''NaN'' ''nan'' = 0" using h6 h4 by (intro t4) simp
  have e: "less_tuples ParseFloat [numField] [''NaN''] [''nan''] = Inr (''NaN'' < ''nan'')"
    using h7 d by (intro t5) simp
  have f: "weird = weird" using weird_distinct h8 by (intro t7) simp
  show ?thesis using h1 h2 h3 h4 h5 h6 h8 a b c d e weird_distinct by simp
qed

subsection \<open>Full names with excluded components\<close>















lemma standin_none: "standin [] False part = part"
  by (simp add: standin_def)


end
